theory Spec2Isabelle
  imports Main "HOL-Library.AList"
begin

section \<open>Python values shared by the modules\<close>

text \<open>
  Exceptions are values. \<open>RuntimeError\<close> carries the fixed part of the message the source
  formats. \<open>OverflowError\<close>, \<open>ProgrammingError\<close> and \<open>OperationalError\<close> are what
  sqlite3 raises for an integer outside the signed 64-bit range, for a value of a type it
  cannot bind, and for a missing table. \<open>AttributeError\<close> is raised by \<open>.strip()\<close> on an
  object that is not a string. \<open>LibraryError\<close> stands for any other \<open>Exception\<close> raised
  inside a library call (imaplib, ssl, socket, email).
\<close>

datatype error =
    RuntimeError string
  | ValueError
  | AttributeError
  | UnicodeDecodeError
  | LookupError
  | OverflowError
  | ProgrammingError
  | OperationalError
  | LibraryError

text \<open>\<open>range(0, stop, step)\<close> as the list of its values; \<open>step = 0\<close> raises.\<close>

function range_from :: "nat \<Rightarrow> nat \<Rightarrow> nat \<Rightarrow> nat list" where
  "range_from i stop step =
     (if step = 0 \<or> stop \<le> i then [] else i # range_from (i + step) stop step)"
  by pat_completeness auto
termination
  by (relation "measure (\<lambda>(i, stop, step). stop - i)") auto

declare range_from.simps [simp del]

definition py_range :: "nat \<Rightarrow> int \<Rightarrow> error + nat list" where
  "py_range stop step =
     (if step = 0 then Inl ValueError
      else if step < 0 then Inr []
      else Inr (range_from 0 stop (nat step)))"

text \<open>The slice \<open>xs[i:j]\<close> for \<open>0 \<le> i \<le> j\<close>.\<close>

definition py_slice :: "'a list \<Rightarrow> nat \<Rightarrow> nat \<Rightarrow> 'a list" where
  "py_slice xs i j = take (j - i) (drop i xs)"

text \<open>
  A header value as \<open>msg.get\<close> returns it: a string, or an \<open>email.header.Header\<close>
  object when the raw header holds bytes that are not ASCII. \<open>py_str\<close> is \<open>str(value)\<close>;
  the object carries the string it prints as. \<open>falsy\<close> is \<open>not value\<close>: only the empty
  string is false, a \<open>Header\<close> object is always true.
\<close>

datatype hval = Str string | Header_obj string

fun py_str :: "hval \<Rightarrow> string" where
  "py_str (Str s) = s"
| "py_str (Header_obj s) = s"

definition falsy :: "hval \<Rightarrow> bool" where
  "falsy v = (v = Str [])"

section \<open>The local store (db.py)\<close>

text \<open>
  The SQLite file holds three tables. \<open>emails\<close> is keyed by its integer primary key
  \<open>uid\<close>, so it is a partial map from uid to row. \<open>sync_state\<close> can hold one row only
  (\<open>CHECK (id = 1)\<close>), so it is an optional row. \<open>deleted_uids\<close> is keyed by uid and is
  only ever read back as a Python set. \<open>schema\<close> says whether the tables have been
  created; a file in which they have not is \<open>absent_db\<close>, with nothing in it.

  The columns that SQLite fills from its own clock (\<open>fetched_at\<close>, \<open>last_sync\<close>,
  \<open>deleted_at\<close>) are left out: no function of the program branches on them.
\<close>

record email_data =
  uid :: int
  message_id :: "string option"
  sender_raw :: string
  sender_email :: string
  sender_name :: string
  recipient_raw :: string
  subject :: string
  date_header :: hval
  date_parsed :: "string option"
  size_bytes :: int

record sync_row =
  last_uid :: int
  total_messages :: int

record db =
  schema :: bool
  emails :: "int \<rightharpoonup> email_data"
  sync_state :: "sync_row option"
  deleted_uids :: "int set"

text \<open>A file whose tables exist and are empty, and a file without tables.\<close>

definition empty_db :: db where
  "empty_db = \<lparr>schema = True, emails = Map.empty, sync_state = None, deleted_uids = {}\<rparr>"

definition absent_db :: db where
  "absent_db = \<lparr>schema = False, emails = Map.empty, sync_state = None, deleted_uids = {}\<rparr>"

text \<open>
  \<open>init_db\<close>: \<open>CREATE TABLE IF NOT EXISTS\<close> for the three tables, which leaves
  existing rows alone, then \<open>INSERT OR IGNORE INTO sync_state ... VALUES (1, 0, NULL, 0)\<close>.
\<close>

definition init_db :: "db \<Rightarrow> db" where
  "init_db d =
     (let d1 = d\<lparr>schema := True\<rparr>
      in case sync_state d1 of
           None \<Rightarrow> d1\<lparr>sync_state := Some \<lparr>last_uid = 0, total_messages = 0\<rparr>\<rparr>
         | Some r \<Rightarrow> d1)"

text \<open>
  A connection (\<open>get_connection\<close>) sees the file and its own uncommitted changes.
  \<open>on_disk\<close> is what the file holds, \<open>in_txn\<close> what the connection reads and writes;
  \<open>commit\<close> makes the two equal. sqlite3 opens a transaction before the first changing
  statement and ends it only at \<open>commit\<close>; a connection that is closed or dropped
  without it loses what it had not committed, so \<open>on_disk\<close> is what remains.
\<close>

record conn =
  on_disk :: db
  in_txn :: db

definition get_connection :: "db \<Rightarrow> conn" where
  "get_connection d = \<lparr>on_disk = d, in_txn = d\<rparr>"

definition commit :: "conn \<Rightarrow> conn" where
  "commit c = c\<lparr>on_disk := in_txn c\<rparr>"

text \<open>An SQLite INTEGER is a signed 64-bit integer; binding any other Python int raises.\<close>

definition sqlite_int :: "int \<Rightarrow> bool" where
  "sqlite_int v = (- (2 ^ 63) \<le> v \<and> v < 2 ^ 63)"

text \<open>
  Binding the named parameters of the \<open>INSERT\<close> of \<open>insert_email\<close>, in the order of
  the statement: the exception of the first value that cannot be bound, if any. The integers
  are \<open>uid\<close> and \<open>size_bytes\<close>; \<open>date_header\<close> is the one text value that can be a
  \<open>Header\<close> object (the others are strings or \<open>None\<close> by construction).
\<close>

definition bind_email :: "email_data \<Rightarrow> error option" where
  "bind_email e =
     (if \<not> sqlite_int (uid e) then Some OverflowError
      else (case date_header e of
              Header_obj h \<Rightarrow> Some ProgrammingError
            | Str s \<Rightarrow> if \<not> sqlite_int (size_bytes e) then Some OverflowError else None))"

text \<open>
  \<open>insert_email\<close>: the statement is prepared first, which raises
  \<open>OperationalError\<close> when the table does not exist; then the parameters are bound, so
  a value that cannot be bound raises whether or not the uid is stored; then
  \<open>INSERT OR IGNORE\<close> and \<open>cursor.rowcount > 0\<close>. The row is ignored exactly when
  its primary key is already present. Nothing is committed here.
\<close>

definition insert_email :: "conn \<Rightarrow> email_data \<Rightarrow> (error + bool) \<times> conn" where
  "insert_email c e =
     (if \<not> schema (in_txn c) then (Inl OperationalError, c)
      else
        (case bind_email e of
           Some err \<Rightarrow> (Inl err, c)
         | None \<Rightarrow>
             if emails (in_txn c) (uid e) = None
             then (Inr True,
                   c\<lparr>in_txn := (in_txn c)\<lparr>emails := (emails (in_txn c))(uid e \<mapsto> e)\<rparr>\<rparr>)
             else (Inr False, c)))"

text \<open>
  \<open>insert_emails_batch\<close>: the loop counting the inserts that returned \<open>True\<close>, then
  \<open>conn.commit()\<close>. An insert that raises leaves the function before the commit, with
  the rows inserted so far uncommitted.
\<close>

fun insert_loop :: "conn \<Rightarrow> email_data list \<Rightarrow> int \<Rightarrow> (error + int) \<times> conn" where
  "insert_loop c [] inserted = (Inr inserted, c)"
| "insert_loop c (e # es) inserted =
     (case insert_email c e of
        (Inl err, c1) \<Rightarrow> (Inl err, c1)
      | (Inr True, c1) \<Rightarrow> insert_loop c1 es (inserted + 1)
      | (Inr False, c1) \<Rightarrow> insert_loop c1 es inserted)"

definition insert_emails_batch :: "conn \<Rightarrow> email_data list \<Rightarrow> (error + int) \<times> conn" where
  "insert_emails_batch c es =
     (case insert_loop c es 0 of
        (Inl err, c1) \<Rightarrow> (Inl err, c1)
      | (Inr inserted, c1) \<Rightarrow> (Inr inserted, commit c1))"

text \<open>
  \<open>get_sync_state\<close>: the row, or the default dict when there is none. It and
  \<open>get_deleted_uids\<close> are given a connection's view of the tables; the program calls
  them in \<open>fetch_all\<close> only, after \<open>init_db\<close> has made sure that the tables exist.
\<close>

definition get_sync_state :: "db \<Rightarrow> sync_row" where
  "get_sync_state d =
     (case sync_state d of
        Some r \<Rightarrow> r
      | None \<Rightarrow> \<lparr>last_uid = 0, total_messages = 0\<rparr>)"

definition get_deleted_uids :: "db \<Rightarrow> int set" where
  "get_deleted_uids d = deleted_uids d"

text \<open>
  \<open>update_sync_state\<close>: \<open>UPDATE sync_state SET last_uid = ?, ..., total_messages = ?
  WHERE id = 1\<close>, then \<open>conn.commit()\<close>. Preparing the statement raises
  \<open>OperationalError\<close> when the table does not exist, and binding an integer outside
  the signed 64-bit range raises \<open>OverflowError\<close>, both before anything is changed. An
  update changes the row when there is one; there is no comparison with the stored value.
\<close>

definition update_sync_state :: "conn \<Rightarrow> int \<Rightarrow> int \<Rightarrow> error + conn" where
  "update_sync_state c new_last_uid new_total =
     (if \<not> schema (in_txn c) then Inl OperationalError
      else if \<not> sqlite_int new_last_uid \<or> \<not> sqlite_int new_total then Inl OverflowError
      else
        Inr (commit
          (case sync_state (in_txn c) of
             None \<Rightarrow> c
           | Some r \<Rightarrow>
               c\<lparr>in_txn := (in_txn c)
                    \<lparr>sync_state := Some (r\<lparr>last_uid := new_last_uid,
                                           total_messages := new_total\<rparr>)\<rparr>\<rparr>)))"

text \<open>
  \<open>mark_deleted\<close>: two \<open>executemany\<close> passes over the uids, first the
  \<open>INSERT OR IGNORE INTO deleted_uids\<close>, then the \<open>DELETE FROM emails\<close>, then
  \<open>conn.commit()\<close>. Each pass binds and runs the statement uid by uid, so a uid that
  cannot be bound raises with the uids before it already done in the open transaction.
  Without the tables the first statement raises. The function does not roll back.
\<close>

fun insert_tombstones :: "db \<Rightarrow> int list \<Rightarrow> error option \<times> db" where
  "insert_tombstones d [] = (None, d)"
| "insert_tombstones d (u # us) =
     (if \<not> sqlite_int u then (Some OverflowError, d)
      else insert_tombstones (d\<lparr>deleted_uids := insert u (deleted_uids d)\<rparr>) us)"

fun delete_rows :: "db \<Rightarrow> int list \<Rightarrow> error option \<times> db" where
  "delete_rows d [] = (None, d)"
| "delete_rows d (u # us) =
     (if \<not> sqlite_int u then (Some OverflowError, d)
      else delete_rows (d\<lparr>emails := (emails d)(u := None)\<rparr>) us)"

definition mark_deleted :: "conn \<Rightarrow> int list \<Rightarrow> error option \<times> conn" where
  "mark_deleted c uids =
     (if \<not> schema (in_txn c) then (Some OperationalError, c)
      else
        (case insert_tombstones (in_txn c) uids of
           (Some err, d1) \<Rightarrow> (Some err, c\<lparr>in_txn := d1\<rparr>)
         | (None, d1) \<Rightarrow>
             (case delete_rows d1 uids of
                (Some err, d2) \<Rightarrow> (Some err, c\<lparr>in_txn := d2\<rparr>)
              | (None, d2) \<Rightarrow> (None, commit (c\<lparr>in_txn := d2\<rparr>)))))"

text \<open>
  A sequence of \<open>insert_email\<close> calls on the same connection, with what each call
  returns or raises: the caller's view of repeated inserts.
\<close>

fun insert_seq :: "conn \<Rightarrow> email_data list \<Rightarrow> (error + bool) list \<times> conn" where
  "insert_seq c [] = ([], c)"
| "insert_seq c (e # es) =
     (case insert_email c e of
        (r, c1) \<Rightarrow> (case insert_seq c1 es of (rs, c2) \<Rightarrow> (r # rs, c2)))"

section \<open>The IMAP client (imap_client.py)\<close>

text \<open>
  The remote end is given by its replies. A call on the imaplib connection either raises
  or returns \<open>(status, data)\<close>; \<open>Reply ok x\<close> records whether \<open>status == "OK"\<close> and
  what the code reads out of \<open>data\<close>. The client keeps whether it holds a connection
  and the commands it has sent, oldest first.
\<close>

datatype 'a reply = Raises error | Reply bool 'a

text \<open>
  One element of a FETCH response as \<open>_parse_fetch_response\<close> tells them apart:
  \<open>None\<close>, the bytes \<open>b")"\<close>, a tuple of at least two parts, anything else. Of a
  tuple's metadata the code reads two things only, the numbers that the searches for
  \<open>UID (\d+)\<close> and \<open>RFC822.SIZE (\d+)\<close> find, so the tuple is given by these two
  matches and its header bytes.
\<close>

datatype item =
    Item_None
  | Item_close
  | Item_tuple (uid_match: "int option") (size_match: "int option") (header_bytes: string)
  | Item_other

datatype cmd =
    LOGIN
  | SELECT bool
  | UID_SEARCH_ALL
  | UID_FETCH "int list"
  | STATUS_UIDNEXT
  | UID_STORE_DELETED "int list"
  | EXPUNGE
  | CLOSE
  | LOGOUT

text \<open>
  The payloads: \<open>on_select\<close> gives \<open>int(data[0])\<close> (\<open>None\<close> when that conversion
  raises), \<open>on_search\<close> the integers of \<open>data[0].decode().split()\<close> in the order sent
  (\<open>None\<close> when decoding or a conversion raises, \<open>Some []\<close> when \<open>data[0]\<close> is
  empty), \<open>on_fetch\<close> the response list, \<open>on_status\<close> the number that the search
  for \<open>UIDNEXT (\d+)\<close> finds in \<open>data[0]\<close>.
\<close>

record server =
  on_connect :: "error option"
  on_login :: "error option"
  on_select :: "bool \<Rightarrow> int option reply"
  on_search :: "int list option reply"
  on_fetch :: "int list \<Rightarrow> item list reply"
  on_status :: "int option reply"
  on_store :: "int list \<Rightarrow> unit reply"
  on_expunge :: "error option"
  on_close :: "error option"
  on_logout :: "error option"

record client =
  conn :: bool
  sent :: "cmd list"

definition new_client :: client where
  "new_client = \<lparr>conn = False, sent = []\<rparr>"

definition send :: "cmd \<Rightarrow> client \<Rightarrow> client" where
  "send x c = c\<lparr>sent := sent c @ [x]\<rparr>"

text \<open>\<open>_select_all_mail\<close>\<close>

definition select_all_mail :: "server \<Rightarrow> bool \<Rightarrow> client \<Rightarrow> (error + int) \<times> client" where
  "select_all_mail srv readonly c =
     (let c1 = send (SELECT readonly) c in
      case on_select srv readonly of
        Raises e \<Rightarrow> (Inl e, c1)
      | Reply ok count \<Rightarrow>
          if \<not> ok then (Inl (RuntimeError ''Failed to select''), c1)
          else (case count of None \<Rightarrow> (Inl ValueError, c1) | Some n \<Rightarrow> (Inr n, c1)))"

text \<open>\<open>connect\<close>: the TLS connection, \<open>login\<close>, then the read-only select.\<close>

definition connect :: "server \<Rightarrow> client \<Rightarrow> (error + unit) \<times> client" where
  "connect srv c =
     (case on_connect srv of
        Some e \<Rightarrow> (Inl e, c)
      | None \<Rightarrow>
          (let c1 = send LOGIN (c\<lparr>conn := True\<rparr>) in
           case on_login srv of
             Some e \<Rightarrow> (Inl e, c1)
           | None \<Rightarrow>
               (case select_all_mail srv True c1 of
                  (Inl e, c2) \<Rightarrow> (Inl e, c2)
                | (Inr n, c2) \<Rightarrow> (Inr (), c2))))"

text \<open>
  \<open>disconnect\<close>: \<open>close\<close> and \<open>logout\<close> inside one \<open>try\<close> whose handler passes, so a
  failing \<open>close\<close> skips the \<open>logout\<close>; the connection is dropped either way.
\<close>

definition disconnect :: "server \<Rightarrow> client \<Rightarrow> client" where
  "disconnect srv c =
     (if conn c then
        (let c1 = send CLOSE c;
             c2 = (case on_close srv of Some e \<Rightarrow> c1 | None \<Rightarrow> send LOGOUT c1)
         in c2\<lparr>conn := False\<rparr>)
      else c)"

text \<open>\<open>search_all\<close>\<close>

definition search_all :: "server \<Rightarrow> client \<Rightarrow> (error + int list) \<times> client" where
  "search_all srv c =
     (let c1 = send UID_SEARCH_ALL c in
      case on_search srv of
        Raises e \<Rightarrow> (Inl e, c1)
      | Reply ok payload \<Rightarrow>
          if \<not> ok then (Inl (RuntimeError ''Search failed''), c1)
          else (case payload of
                  None \<Rightarrow> (Inl ValueError, c1)
                | Some uid_strings \<Rightarrow> (Inr (sort uid_strings), c1)))"

text \<open>\<open>search_since_uid\<close>: the whole listing, filtered on the client.\<close>

definition search_since_uid :: "server \<Rightarrow> int \<Rightarrow> client \<Rightarrow> (error + int list) \<times> client" where
  "search_since_uid srv min_uid c =
     (case search_all srv c of
        (Inl e, c1) \<Rightarrow> (Inl e, c1)
      | (Inr all_uids, c1) \<Rightarrow> (Inr (filter (\<lambda>u. u > min_uid) all_uids), c1))"

text \<open>\<open>get_uidnext\<close>\<close>

definition get_uidnext :: "server \<Rightarrow> client \<Rightarrow> (error + int) \<times> client" where
  "get_uidnext srv c =
     (let c1 = send STATUS_UIDNEXT c in
      case on_status srv of
        Raises e \<Rightarrow> (Inl e, c1)
      | Reply ok m \<Rightarrow>
          if \<not> ok then (Inl (RuntimeError ''STATUS failed''), c1)
          else (case m of
                  None \<Rightarrow> (Inl (RuntimeError ''Could not parse UIDNEXT''), c1)
                | Some n \<Rightarrow> (Inr n, c1)))"

text \<open>
  The value of one uid in the dict that \<open>fetch_headers\<close> returns. The dict keeps
  insertion order and is iterated with \<open>items()\<close>, so it is an association list:
  \<open>AList.update\<close> replaces the value of a key in place and appends a new key.
\<close>

record header_data =
  headers :: string
  size_val :: int

type_synonym batch = "(int \<times> header_data) list"

text \<open>\<open>_parse_fetch_response\<close>: the \<open>while\<close> loop over the response list.\<close>

fun parse_fetch_loop :: "item list \<Rightarrow> batch \<Rightarrow> batch" where
  "parse_fetch_loop [] results = results"
| "parse_fetch_loop (Item_None # data) results = parse_fetch_loop data results"
| "parse_fetch_loop (Item_close # data) results = parse_fetch_loop data results"
| "parse_fetch_loop (Item_tuple um sm hs # data) results =
     (case um of
        Some u \<Rightarrow>
          parse_fetch_loop data
            (AList.update u
               \<lparr>headers = hs, size_val = (case sm of Some n \<Rightarrow> n | None \<Rightarrow> 0)\<rparr> results)
      | None \<Rightarrow> parse_fetch_loop data results)"
| "parse_fetch_loop (Item_other # data) results = parse_fetch_loop data results"

definition parse_fetch_response :: "item list \<Rightarrow> batch" where
  "parse_fetch_response data = parse_fetch_loop data []"

text \<open>\<open>fetch_headers\<close>: nothing is sent for an empty list.\<close>

definition fetch_headers :: "server \<Rightarrow> int list \<Rightarrow> client \<Rightarrow> (error + batch) \<times> client" where
  "fetch_headers srv uids c =
     (if uids = [] then (Inr [], c)
      else
        (let c1 = send (UID_FETCH uids) c in
         case on_fetch srv uids of
           Raises e \<Rightarrow> (Inl e, c1)
         | Reply ok data \<Rightarrow>
             if \<not> ok then (Inl (RuntimeError ''Fetch failed''), c1)
             else (Inr (parse_fetch_response data), c1)))"

text \<open>
  \<open>fetch_headers_batch\<close> is a generator, so it runs interleaved with the \<open>for\<close> loop
  that consumes it: one \<open>fetch_headers\<close> call, then the consumer's loop body on what was
  yielded, then the next call. \<open>body\<close> is that loop body and \<open>s\<close> the consumer's
  variables; the body returns them changed, with the exception it raised if it raised one.
  An exception in \<open>fetch_headers\<close> leaves the generator and the loop, and so does an
  exception of the body; the result then carries the exception and the consumer's
  variables as they were at that point. The pause between two batches (\<open>time.sleep\<close>)
  is not modelled.
\<close>

fun for_batches ::
  "server \<Rightarrow> int list \<Rightarrow> nat \<Rightarrow> nat list \<Rightarrow> ('s \<Rightarrow> batch \<Rightarrow> error option \<times> 's) \<Rightarrow> 's
     \<Rightarrow> client \<Rightarrow> error option \<times> 's \<times> client" where
  "for_batches srv uids bs [] body s c = (None, s, c)"
| "for_batches srv uids bs (i # starts) body s c =
     (case fetch_headers srv (py_slice uids i (i + bs)) c of
        (Inl e, c1) \<Rightarrow> (Some e, s, c1)
      | (Inr batch_data, c1) \<Rightarrow>
          (case body s batch_data of
             (Some e, s1) \<Rightarrow> (Some e, s1, c1)
           | (None, s1) \<Rightarrow> for_batches srv uids bs starts body s1 c1))"

definition fetch_headers_batch ::
  "server \<Rightarrow> int list \<Rightarrow> int \<Rightarrow> ('s \<Rightarrow> batch \<Rightarrow> error option \<times> 's) \<Rightarrow> 's \<Rightarrow> client
     \<Rightarrow> error option \<times> 's \<times> client" where
  "fetch_headers_batch srv uids batch_size body s c =
     (case py_range (length uids) batch_size of
        Inl e \<Rightarrow> (Some e, s, c)
      | Inr starts \<Rightarrow> for_batches srv uids (nat batch_size) starts body s c)"

text \<open>
  \<open>delete_messages\<close>: nothing is sent for an empty list; otherwise select read-write,
  \<open>STORE +FLAGS (\Deleted)\<close>, \<open>expunge\<close> when asked (its status is not looked at),
  select read-only, and the length of the list is returned. Each step may raise, and
  there is no handler inside the method.
\<close>

definition delete_messages ::
  "server \<Rightarrow> int list \<Rightarrow> bool \<Rightarrow> client \<Rightarrow> (error + int) \<times> client" where
  "delete_messages srv uids expunge c =
     (if uids = [] then (Inr 0, c)
      else
        (case select_all_mail srv False c of
           (Inl e, c1) \<Rightarrow> (Inl e, c1)
         | (Inr n, c1) \<Rightarrow>
             (let c2 = send (UID_STORE_DELETED uids) c1 in
              case on_store srv uids of
                Raises e \<Rightarrow> (Inl e, c2)
              | Reply ok u \<Rightarrow>
                  if \<not> ok then (Inl (RuntimeError ''Failed to mark deleted''), c2)
                  else
                    (let deleted_count = int (length uids);
                         c3 = (if expunge then send EXPUNGE c2 else c2)
                     in case (if expunge then on_expunge srv else None) of
                          Some e \<Rightarrow> (Inl e, c3)
                        | None \<Rightarrow>
                            (case select_all_mail srv True c3 of
                               (Inl e, c4) \<Rightarrow> (Inl e, c4)
                             | (Inr m, c4) \<Rightarrow> (Inr deleted_count, c4))))))"

section \<open>The deletion engine (delete.py)\<close>

text \<open>
  The statistics dict of \<open>delete_emails\<close>; its key \<open>errors\<close> is \<open>del_errors\<close> here,
  the plain name being taken by the statistics of \<open>fetch_all\<close>.
\<close>

record del_stats =
  deleted :: int
  del_errors :: int
  not_found :: int

definition del_stats0 :: del_stats where
  "del_stats0 = \<lparr>deleted = 0, del_errors = 0, not_found = 0\<rparr>"

text \<open>
  One turn of the loop of \<open>delete_emails\<close>: the \<open>try\<close> block (\<open>delete_messages\<close>
  with \<open>expunge=True\<close>, the count, \<open>mark_deleted\<close>) and its \<open>except Exception\<close>
  handler, which adds the size of the batch to \<open>errors\<close> whichever of the two calls
  raised. When it is \<open>mark_deleted\<close> that raises, the count has been added to
  \<open>deleted\<close> already and the connection keeps what the call had done before it raised.
  No progress callback is passed by any caller; the progress line and the pause between
  batches are not modelled.
\<close>

record del_state =
  dstats :: del_stats
  dstore :: conn
  dclient :: client

definition delete_batch :: "server \<Rightarrow> int list \<Rightarrow> del_state \<Rightarrow> del_state" where
  "delete_batch srv batch s =
     (case delete_messages srv batch True (dclient s) of
        (Inl e, c1) \<Rightarrow>
          s\<lparr>dstats := (dstats s)\<lparr>del_errors := del_errors (dstats s) + int (length batch)\<rparr>,
            dclient := c1\<rparr>
      | (Inr n, c1) \<Rightarrow>
          (let counted = (dstats s)\<lparr>deleted := deleted (dstats s) + n\<rparr>
           in case mark_deleted (dstore s) batch of
                (None, k1) \<Rightarrow> s\<lparr>dstats := counted, dstore := k1, dclient := c1\<rparr>
              | (Some e, k1) \<Rightarrow>
                  s\<lparr>dstats := counted\<lparr>del_errors := del_errors counted + int (length batch)\<rparr>,
                    dstore := k1, dclient := c1\<rparr>))"

fun delete_loop :: "server \<Rightarrow> int list \<Rightarrow> nat \<Rightarrow> nat list \<Rightarrow> del_state \<Rightarrow> del_state" where
  "delete_loop srv uids bs [] s = s"
| "delete_loop srv uids bs (i # starts) s =
     delete_loop srv uids bs starts (delete_batch srv (py_slice uids i (i + bs)) s)"

text \<open>
  \<open>delete_emails\<close>. \<open>credentials\<close> says whether \<open>load_config_from_env\<close> finds both
  variables (it raises \<open>ValueError\<close> otherwise). The function opens its connection to the
  file as it is: it does not call \<open>init_db\<close>. The result is the returned statistics or the
  exception that leaves the function, the file once the connection is closed or dropped,
  and the commands sent.
\<close>

definition delete_emails ::
  "server \<Rightarrow> bool \<Rightarrow> int list \<Rightarrow> int \<Rightarrow> db \<Rightarrow> (error + del_stats) \<times> db \<times> cmd list" where
  "delete_emails srv credentials uids batch_size d =
     (if uids = [] then (Inr del_stats0, d, [])
      else if \<not> credentials then (Inl ValueError, d, [])
      else
        (case connect srv new_client of
           (Inl e, c) \<Rightarrow> (Inl e, d, sent c)
         | (Inr u, c) \<Rightarrow>
             (case py_range (length uids) batch_size of
                Inl e \<Rightarrow> (Inl e, d, sent (disconnect srv c))
              | Inr starts \<Rightarrow>
                  (let s = delete_loop srv uids (nat batch_size) starts
                             \<lparr>dstats = del_stats0, dstore = get_connection d, dclient = c\<rparr>
                   in (Inr (dstats s), on_disk (dstore s), sent (disconnect srv (dclient s)))))))"

section \<open>The fetcher (fetch.py)\<close>

text \<open>
  The standard-library calls of fetch.py are parameters, each with the exceptions it may
  raise: \<open>email.header.decode_header\<close>, \<open>bytes.decode\<close> (the flag says whether
  \<open>errors="replace"\<close> is passed), \<open>email.message_from_bytes\<close> (read through
  \<open>msg.get\<close>), \<open>email.utils.parseaddr\<close>,
  \<open>str.lower\<close>, \<open>str.strip\<close>, and the datetime calls of \<open>parse_date\<close>.
  \<open>'dt\<close> is the type of datetime objects. Only \<open>Exception\<close>s are values here:
  what \<open>except Exception\<close> does not catch (\<open>KeyboardInterrupt\<close>, \<open>SystemExit\<close>)
  comes from outside the program.
\<close>

datatype hpart =
    Part_bytes string "string option"
  | Part_str string "string option"

record 'dt lib =
  decode_header :: "hval \<Rightarrow> error + hpart list"
  bytes_decode :: "string \<Rightarrow> bool \<Rightarrow> string \<Rightarrow> error + string"
  message_from_bytes :: "string \<Rightarrow> error + (string \<rightharpoonup> hval)"
  parseaddr :: "string \<Rightarrow> error + string \<times> string"
  str_lower :: "string \<Rightarrow> string"
  str_strip :: "string \<Rightarrow> string"
  parsedate_to_datetime :: "hval \<Rightarrow> error + 'dt"
  tzinfo_is_None :: "'dt \<Rightarrow> bool"
  replace_tzinfo_utc :: "'dt \<Rightarrow> error + 'dt"
  astimezone_utc :: "'dt \<Rightarrow> error + 'dt"
  isoformat :: "'dt \<Rightarrow> error + string"

text \<open>Sequencing of calls that may raise.\<close>

definition and_then :: "error + 'a \<Rightarrow> ('a \<Rightarrow> error + 'b) \<Rightarrow> error + 'b" where
  "and_then m f = (case m of Inl e \<Rightarrow> Inl e | Inr x \<Rightarrow> f x)"

text \<open>
  The body of the \<open>for\<close> loop of \<open>decode_header_value\<close> for a bytes part: the declared
  charset (\<open>charset or "utf-8"\<close>), then on \<open>UnicodeDecodeError\<close> or \<open>LookupError\<close>
  UTF-8 with replacement, then on any exception of that latin-1 with replacement.
\<close>

definition decode_part :: "'dt lib \<Rightarrow> hpart \<Rightarrow> error + string" where
  "decode_part L part =
     (case part of
        Part_bytes data charset \<Rightarrow>
          (let encoding = (case charset of
                             None \<Rightarrow> ''utf-8''
                           | Some cs \<Rightarrow> if cs = [] then ''utf-8'' else cs)
           in case bytes_decode L encoding False data of
                Inr t \<Rightarrow> Inr t
              | Inl e \<Rightarrow>
                  if e = UnicodeDecodeError \<or> e = LookupError then
                    (case bytes_decode L ''utf-8'' True data of
                       Inr t \<Rightarrow> Inr t
                     | Inl e2 \<Rightarrow> bytes_decode L ''latin-1'' True data)
                  else Inl e)
      | Part_str data charset \<Rightarrow> Inr data)"

fun decode_parts :: "'dt lib \<Rightarrow> hpart list \<Rightarrow> string list \<Rightarrow> error + string list" where
  "decode_parts L [] result = Inr result"
| "decode_parts L (part # parts) result =
     (case decode_part L part of
        Inl e \<Rightarrow> Inl e
      | Inr t \<Rightarrow> decode_parts L parts (result @ [t]))"

text \<open>
  \<open>decode_header_value\<close>: \<open>not value\<close> holds for \<open>None\<close> and for the empty string;
  the outer \<open>try\<close> returns \<open>str(value)\<close> on any exception.
\<close>

definition decode_header_value :: "'dt lib \<Rightarrow> hval option \<Rightarrow> error + string" where
  "decode_header_value L val =
     (case val of
        None \<Rightarrow> Inr []
      | Some v \<Rightarrow>
          if falsy v then Inr []
          else
            (case and_then (decode_header L v)
                    (\<lambda>decoded_parts. and_then (decode_parts L decoded_parts [])
                       (\<lambda>result. Inr (concat result))) of
               Inr t \<Rightarrow> Inr t
             | Inl e \<Rightarrow> Inr (py_str v)))"

text \<open>\<open>parse_date\<close>: the \<open>try\<close> returns \<open>None\<close> on any exception.\<close>

definition parse_date :: "'dt lib \<Rightarrow> hval \<Rightarrow> error + string option" where
  "parse_date L date_hdr =
     (if falsy date_hdr then Inr None
      else
        (case and_then (parsedate_to_datetime L date_hdr)
                (\<lambda>dt. and_then (if tzinfo_is_None L dt then replace_tzinfo_utc L dt
                                  else astimezone_utc L dt)
                   (isoformat L)) of
           Inr t \<Rightarrow> Inr (Some t)
         | Inl e \<Rightarrow> Inr None))"

text \<open>\<open>extract_email_address\<close>\<close>

definition extract_email_address :: "'dt lib \<Rightarrow> string \<Rightarrow> error + string \<times> string" where
  "extract_email_address L from_header =
     (if from_header = [] then Inr ([], [])
      else
        and_then (parseaddr L from_header)
          (\<lambda>(name, addr).
             (let addr1 = (if addr \<noteq> [] then str_strip L (str_lower L addr) else [])
              in and_then (decode_header_value L (Some (Str name)))
                   (\<lambda>name1. Inr (addr1, str_strip L name1)))))"

text \<open>
  \<open>parse_headers\<close>; \<open>msg.get(name, "")\<close> is \<open>msg_get\<close>. The From, To and Subject
  values are decoded to strings. The Date value is stored as it is, and
  \<open>message_id.strip() if message_id else None\<close> is \<open>strip_message_id\<close>, which raises
  on a \<open>Header\<close> object.
\<close>

definition msg_get :: "(string \<rightharpoonup> hval) \<Rightarrow> string \<Rightarrow> hval" where
  "msg_get msg name = (case msg name of None \<Rightarrow> Str [] | Some v \<Rightarrow> v)"

definition strip_message_id :: "'dt lib \<Rightarrow> hval \<Rightarrow> error + string option" where
  "strip_message_id L msg_id =
     (if falsy msg_id then Inr None
      else (case msg_id of
              Str s \<Rightarrow> Inr (Some (str_strip L s))
            | Header_obj h \<Rightarrow> Inl AttributeError))"

definition parse_headers :: "'dt lib \<Rightarrow> string \<Rightarrow> int \<Rightarrow> int \<Rightarrow> error + email_data" where
  "parse_headers L raw_headers sz u =
     and_then (message_from_bytes L raw_headers) (\<lambda>msg.
     and_then (decode_header_value L (Some (msg_get msg ''From''))) (\<lambda>from_raw.
     and_then (decode_header_value L (Some (msg_get msg ''To''))) (\<lambda>to_raw.
     and_then (decode_header_value L (Some (msg_get msg ''Subject''))) (\<lambda>subj.
     (let date_hdr = msg_get msg ''Date'';
          msg_id = msg_get msg ''Message-ID''
      in and_then (extract_email_address L from_raw) (\<lambda>(s_email, s_name).
         and_then (parse_date L date_hdr) (\<lambda>parsed.
         and_then (strip_message_id L msg_id) (\<lambda>stripped_id.
           Inr \<lparr>uid = u,
                message_id = stripped_id,
                sender_raw = from_raw,
                sender_email = s_email,
                sender_name = s_name,
                recipient_raw = to_raw,
                subject = subj,
                date_header = date_hdr,
                date_parsed = parsed,
                size_bytes = sz\<rparr>))))))))"

text \<open>The statistics dict of \<open>fetch_all\<close>.\<close>

record stats =
  total_fetched :: int
  new_stored :: int
  already_existed :: int
  errors :: int

definition stats0 :: stats where
  "stats0 = \<lparr>total_fetched = 0, new_stored = 0, already_existed = 0, errors = 0\<rparr>"

text \<open>The variables of \<open>fetch_all\<close> that its loop changes, and its connection.\<close>

record floop =
  fetched :: int
  batch_emails :: "email_data list"
  fstats :: stats
  fstore :: conn

text \<open>
  The inner loop over \<open>batch_data.items()\<close>: a record that parses is appended and
  counted in \<open>fetched\<close>, one whose parsing raises is counted in \<open>errors\<close>.
\<close>

fun parse_items :: "'dt lib \<Rightarrow> batch \<Rightarrow> floop \<Rightarrow> floop" where
  "parse_items L [] s = s"
| "parse_items L ((u, data) # rest) s =
     (case parse_headers L (headers data) (size_val data) u of
        Inr email_record \<Rightarrow>
          parse_items L rest
            (s\<lparr>batch_emails := batch_emails s @ [email_record], fetched := fetched s + 1\<rparr>)
      | Inl e \<Rightarrow>
          parse_items L rest (s\<lparr>fstats := (fstats s)\<lparr>errors := errors (fstats s) + 1\<rparr>\<rparr>))"

text \<open>
  The three statements under \<open>new_count = insert_emails_batch(conn, batch_emails)\<close>.
  They stand outside any \<open>try\<close>: when the insert raises, the exception is on its way out
  of \<open>fetch_all\<close>.
\<close>

definition store_batch :: "floop \<Rightarrow> error option \<times> floop" where
  "store_batch s =
     (case insert_emails_batch (fstore s) (batch_emails s) of
        (Inl err, k1) \<Rightarrow> (Some err, s\<lparr>fstore := k1\<rparr>)
      | (Inr new_count, k1) \<Rightarrow>
          (None,
           s\<lparr>fstats := (fstats s)
                \<lparr>new_stored := new_stored (fstats s) + new_count,
                 already_existed :=
                   already_existed (fstats s) + (int (length (batch_emails s)) - new_count)\<rparr>,
             fstore := k1\<rparr>))"

text \<open>
  The body of the outer loop: parse the batch, and once at least \<open>batch_size\<close> records
  are pending store them and empty the pending list. No progress callback is passed by any
  caller; the progress line is not modelled.
\<close>

definition loop_body :: "'dt lib \<Rightarrow> int \<Rightarrow> floop \<Rightarrow> batch \<Rightarrow> error option \<times> floop" where
  "loop_body L batch_size s batch_data =
     (let s1 = parse_items L batch_data s
      in if int (length (batch_emails s1)) \<ge> batch_size
         then (case store_batch s1 of
                 (Some err, s2) \<Rightarrow> (Some err, s2)
               | (None, s2) \<Rightarrow> (None, s2\<lparr>batch_emails := []\<rparr>))
         else (None, s1))"

text \<open>The variables of \<open>fetch_all\<close> when its loop starts.\<close>

definition floop0 :: "conn \<Rightarrow> floop" where
  "floop0 k = \<lparr>fetched = 0, batch_emails = [], fstats = stats0, fstore = k\<rparr>"

text \<open>\<open>if batch_emails:\<close> after the loop: the pending records are stored.\<close>

definition store_remaining :: "floop \<Rightarrow> error option \<times> floop" where
  "store_remaining s = (if batch_emails s \<noteq> [] then store_batch s else (None, s))"

text \<open>\<open>max(uids)\<close>, which raises on the empty list.\<close>

definition py_max :: "int list \<Rightarrow> error + int" where
  "py_max xs = (case xs of [] \<Rightarrow> Inl ValueError | x # rest \<Rightarrow> Inr (fold max rest x))"

text \<open>The choice of the listing: incremental from a positive cursor, or everything.\<close>

definition list_uids :: "server \<Rightarrow> bool \<Rightarrow> db \<Rightarrow> client \<Rightarrow> (error + int list) \<times> client" where
  "list_uids srv incremental d c =
     (if incremental then
        (let last = last_uid (get_sync_state d)
         in if last > 0 then search_since_uid srv last c else search_all srv c)
      else search_all srv c)"

text \<open>
  The statements after the loop of \<open>fetch_all\<close>: the pending records, then
  \<open>max(uids)\<close>, \<open>get_uidnext\<close> and \<open>update_sync_state\<close> under \<open>if uids:\<close>.
\<close>

definition finish ::
  "server \<Rightarrow> int list \<Rightarrow> floop \<Rightarrow> client \<Rightarrow> (error + stats) \<times> conn \<times> client" where
  "finish srv uids s c =
     (case store_remaining s of
        (Some e, s1) \<Rightarrow> (Inl e, fstore s1, c)
      | (None, s1) \<Rightarrow>
          (let result = (fstats s1)\<lparr>total_fetched := fetched s1\<rparr>
           in if uids \<noteq> [] then
                (case py_max uids of
                   Inl e \<Rightarrow> (Inl e, fstore s1, c)
                 | Inr max_uid \<Rightarrow>
                     (case get_uidnext srv c of
                        (Inl e, c1) \<Rightarrow> (Inl e, fstore s1, c1)
                      | (Inr uidnext, c1) \<Rightarrow>
                          (case update_sync_state (fstore s1) max_uid uidnext of
                             Inl e \<Rightarrow> (Inl e, fstore s1, c1)
                           | Inr k1 \<Rightarrow> (Inr result, k1, c1))))
              else (Inr result, fstore s1, c)))"

text \<open>
  The block under \<open>with GmailIMAPClient(config) as client\<close>, from the listing to the
  update of the sync state, with the connection to the store as it is when the block is
  left.
\<close>

definition fetch_all_block ::
  "'dt lib \<Rightarrow> server \<Rightarrow> int \<Rightarrow> bool \<Rightarrow> conn \<Rightarrow> client \<Rightarrow> (error + stats) \<times> conn \<times> client" where
  "fetch_all_block L srv batch_size incremental k c =
     (case list_uids srv incremental (in_txn k) c of
        (Inl e, c1) \<Rightarrow> (Inl e, k, c1)
      | (Inr listed, c1) \<Rightarrow>
          (let uids = filter (\<lambda>u. u \<notin> get_deleted_uids (in_txn k)) listed
           in if length uids = 0 then (Inr stats0, k, c1)
              else
                (case fetch_headers_batch srv uids batch_size (loop_body L batch_size)
                        (floop0 k) c1 of
                   (Some e, s, c2) \<Rightarrow> (Inl e, fstore s, c2)
                 | (None, s, c2) \<Rightarrow> finish srv uids s c2)))"

text \<open>
  \<open>fetch_all\<close>: \<open>init_db\<close>, the connection to the store, the credentials, the
  connection to the server, the block, and the disconnect that leaving the \<open>with\<close>
  statement runs on every path. The result is the returned statistics or the exception
  that leaves the function, the file once the connection to the store is closed or dropped,
  and the commands sent.
\<close>

definition fetch_all ::
  "'dt lib \<Rightarrow> server \<Rightarrow> bool \<Rightarrow> int \<Rightarrow> bool \<Rightarrow> db \<Rightarrow> (error + stats) \<times> db \<times> cmd list" where
  "fetch_all L srv credentials batch_size incremental d0 =
     (let d = init_db d0
      in if \<not> credentials then (Inl ValueError, d, [])
         else
           (case connect srv new_client of
              (Inl e, c) \<Rightarrow> (Inl e, d, sent c)
            | (Inr u, c) \<Rightarrow>
                (case fetch_all_block L srv batch_size incremental (get_connection d) c of
                   (r, k1, c1) \<Rightarrow> (r, on_disk k1, sent (disconnect srv c1)))))"

section \<open>Notions used to state the properties\<close>

text \<open>
  The batches that the loops \<open>for i in range(0, len(uids), batch_size)\<close> cut with
  \<open>uids[i:i + batch_size]\<close>, in order.
\<close>

definition batches_of :: "int list \<Rightarrow> nat \<Rightarrow> int list list" where
  "batches_of uids bs = map (\<lambda>i. py_slice uids i (i + bs)) (range_from 0 (length uids) bs)"

text \<open>The uid lists of the FETCH commands in a log of sent commands, in order.\<close>

fun fetch_requests :: "cmd list \<Rightarrow> int list list" where
  "fetch_requests [] = []"
| "fetch_requests (UID_FETCH us # xs) = us # fetch_requests xs"
| "fetch_requests (x # xs) = fetch_requests xs"

text \<open>Whether the server answers a FETCH for these uids with status OK.\<close>

definition fetch_ok :: "server \<Rightarrow> int list \<Rightarrow> bool" where
  "fetch_ok srv us = (case on_fetch srv us of Reply ok data \<Rightarrow> ok | Raises e \<Rightarrow> False)"

text \<open>The batches up to and including the first one whose FETCH is not answered OK.\<close>

fun issued_until_failure :: "server \<Rightarrow> int list list \<Rightarrow> int list list" where
  "issued_until_failure srv [] = []"
| "issued_until_failure srv (b # bs) =
     (if fetch_ok srv b then b # issued_until_failure srv bs else [b])"

text \<open>
  Whether \<open>delete_messages\<close> with \<open>expunge=True\<close> returns for this batch rather than
  raising. The replies do not depend on the commands sent before, so neither does this.
\<close>

definition delete_ok :: "server \<Rightarrow> int list \<Rightarrow> bool" where
  "delete_ok srv batch =
     (case fst (delete_messages srv batch True new_client) of
        Inr n \<Rightarrow> True
      | Inl e \<Rightarrow> False)"

text \<open>The sum of the lengths of some batches, as a Python integer.\<close>

definition total_len :: "int list list \<Rightarrow> int" where
  "total_len bs = int (length (concat bs))"

text \<open>
  A server that accepts everything: an empty folder, any FETCH answered with an empty
  response. The examples below change single replies of it.
\<close>

definition quiet_server :: server where
  "quiet_server =
     \<lparr>on_connect = None, on_login = None,
      on_select = (\<lambda>readonly. Reply True (Some 0)),
      on_search = Reply True (Some []),
      on_fetch = (\<lambda>uids. Reply True []),
      on_status = Reply True (Some 1),
      on_store = (\<lambda>uids. Reply True ()),
      on_expunge = None, on_close = None, on_logout = None\<rparr>"

text \<open>The client right after a successful \<open>connect\<close>.\<close>

definition connected_client :: client where
  "connected_client = \<lparr>conn = True, sent = [LOGIN, SELECT True]\<rparr>"

text \<open>Whether a select, or the STORE for these uids, is answered so that the code goes on.\<close>

definition select_ok :: "server \<Rightarrow> bool \<Rightarrow> bool" where
  "select_ok srv readonly =
     (case on_select srv readonly of
        Reply ok count \<Rightarrow> ok \<and> count \<noteq> None
      | Raises e \<Rightarrow> False)"

definition store_ok :: "server \<Rightarrow> int list \<Rightarrow> bool" where
  "store_ok srv us = (case on_store srv us of Reply ok u \<Rightarrow> ok | Raises e \<Rightarrow> False)"

text \<open>
  A library in which nothing raises and nothing is encoded: a header value is one string
  part, decoding returns the bytes, a message has no headers, and every date parses. The
  examples below change single functions of it.
\<close>

definition plain_lib :: "unit lib" where
  "plain_lib =
     \<lparr>decode_header = (\<lambda>v. Inr [Part_str (py_str v) None]),
      bytes_decode = (\<lambda>encoding replace data. Inr data),
      message_from_bytes = (\<lambda>raw. Inr Map.empty),
      parseaddr = (\<lambda>v. Inr ([], v)),
      str_lower = (\<lambda>v. v),
      str_strip = (\<lambda>v. v),
      parsedate_to_datetime = (\<lambda>v. Inr ()),
      tzinfo_is_None = (\<lambda>dt. True),
      replace_tzinfo_utc = (\<lambda>dt. Inr dt),
      astimezone_utc = (\<lambda>dt. Inr dt),
      isoformat = (\<lambda>dt. Inr ''1970-01-01T00:00:00+00:00'')\<rparr>"

text \<open>
  The uids a run of \<open>fetch_all\<close> works on: the listing it obtains, without the
  tombstoned uids (empty when the listing fails). The replies do not depend on the
  commands sent before.
\<close>

definition enumerated :: "server \<Rightarrow> bool \<Rightarrow> db \<Rightarrow> int list" where
  "enumerated srv incremental d =
     (case fst (list_uids srv incremental d new_client) of
        Inl e \<Rightarrow> []
      | Inr listed \<Rightarrow> filter (\<lambda>u. u \<notin> get_deleted_uids d) listed)"

text \<open>
  A folder with the messages 10, 20 and 30 whose server answers a FETCH with one tuple
  per requested uid, and one whose server lists 10 and 20 and answers every FETCH with
  the tuple of message 10 only (message 20 is gone by the time it is fetched).
\<close>

definition three_mail_server :: server where
  "three_mail_server =
     quiet_server
       \<lparr>on_search := Reply True (Some [10, 20, 30]),
        on_fetch := (\<lambda>uids. Reply True
                       (concat (map (\<lambda>u. [Item_tuple (Some u) (Some 100) ''Subject: x'',
                                           Item_close]) uids))),
        on_status := Reply True (Some 31)\<rparr>"

definition omitting_server :: server where
  "omitting_server =
     quiet_server
       \<lparr>on_search := Reply True (Some [10, 20]),
        on_fetch := (\<lambda>uids. Reply True
                       [Item_tuple (Some 10) (Some 100) ''Subject: x'', Item_close]),
        on_status := Reply True (Some 21)\<rparr>"

text \<open>
  Whether \<open>mark_deleted\<close> goes through for a batch on a connection to this file: the
  tables exist and every uid can be bound.
\<close>

definition storable :: "db \<Rightarrow> int list \<Rightarrow> bool" where
  "storable d batch = (schema d \<and> list_all sqlite_int batch)"

text \<open>The exception that \<open>fetch_headers\<close> raises for a FETCH that is not answered OK.\<close>

definition fetch_error :: "server \<Rightarrow> int list \<Rightarrow> error" where
  "fetch_error srv us =
     (case on_fetch srv us of Raises e \<Rightarrow> e | Reply ok data \<Rightarrow> RuntimeError ''Fetch failed'')"

text \<open>Whether the listing and the UIDNEXT query are answered so that the code goes on.\<close>

definition search_ok :: "server \<Rightarrow> bool" where
  "search_ok srv =
     (case on_search srv of Reply ok payload \<Rightarrow> ok \<and> payload \<noteq> None | Raises e \<Rightarrow> False)"

definition uidnext_ok :: "server \<Rightarrow> bool" where
  "uidnext_ok srv =
     (case on_status srv of Reply ok m \<Rightarrow> ok \<and> m \<noteq> None | Raises e \<Rightarrow> False)"

text \<open>A consumer's loop body that never raises.\<close>

definition total_body :: "('s \<Rightarrow> batch \<Rightarrow> 's) \<Rightarrow> 's \<Rightarrow> batch \<Rightarrow> error option \<times> 's" where
  "total_body f s b = (None, f s b)"

text \<open>A stored record with nothing in it but its uid, for the examples.\<close>

definition bare_email :: "int \<Rightarrow> email_data" where
  "bare_email u =
     \<lparr>uid = u, message_id = None, sender_raw = [], sender_email = [], sender_name = [],
      recipient_raw = [], subject = [], date_header = Str [], date_parsed = None,
      size_bytes = 0\<rparr>"


text \<open>
  A connection whose sync state and tombstones, in the file and in the open transaction,
  are those of a given store, the tables existing where they do there; one with nothing
  uncommitted; and one whose open transaction has at least the rows of the file.
\<close>

definition same_tables :: "conn \<Rightarrow> db \<Rightarrow> bool" where
  "same_tables k d =
     (sync_state (on_disk k) = sync_state d \<and> sync_state (in_txn k) = sync_state d
      \<and> deleted_uids (on_disk k) = deleted_uids d \<and> deleted_uids (in_txn k) = deleted_uids d
      \<and> schema (on_disk k) = schema d \<and> schema (in_txn k) = schema d)"

definition clean :: "conn \<Rightarrow> bool" where
  "clean k = (in_txn k = on_disk k)"

definition grown :: "conn \<Rightarrow> bool" where
  "grown k = (dom (emails (on_disk k)) \<subseteq> dom (emails (in_txn k)))"

section \<open>Properties of the store\<close>

lemma bind_email_None:
  "bind_email e = None \<longleftrightarrow>
     sqlite_int (uid e) \<and> (\<exists>s. date_header e = Str s) \<and> sqlite_int (size_bytes e)"
  by (auto simp: bind_email_def split: hval.splits)

lemma insert_email_no_tables:
  "\<not> schema (in_txn k) \<Longrightarrow> insert_email k e = (Inl OperationalError, k)"
  by (simp add: insert_email_def)

lemma insert_email_unbound:
  "schema (in_txn k) \<Longrightarrow> bind_email e = Some err \<Longrightarrow> insert_email k e = (Inl err, k)"
  by (simp add: insert_email_def)

lemma insert_email_present:
  "schema (in_txn k) \<Longrightarrow> bind_email e = None \<Longrightarrow> emails (in_txn k) (uid e) \<noteq> None \<Longrightarrow>
   insert_email k e = (Inr False, k)"
  by (simp add: insert_email_def)

lemma insert_email_absent:
  "schema (in_txn k) \<Longrightarrow> bind_email e = None \<Longrightarrow> emails (in_txn k) (uid e) = None \<Longrightarrow>
   insert_email k e
     = (Inr True, k\<lparr>in_txn := (in_txn k)\<lparr>emails := (emails (in_txn k))(uid e \<mapsto> e)\<rparr>\<rparr>)"
  by (simp add: insert_email_def)

lemma insert_seq_present:
  "schema (in_txn k) \<Longrightarrow> \<forall>x\<in>set es. emails (in_txn k) (uid x) \<noteq> None \<Longrightarrow>
   insert_seq k es
     = (map (\<lambda>x. case bind_email x of None \<Rightarrow> Inr False | Some err \<Rightarrow> Inl err) es, k)"
proof (induction es)
  case Nil
  then show ?case by simp
next
  case (Cons e es)
  show ?case
  proof (cases "bind_email e")
    case None
    then show ?thesis using Cons by (simp add: insert_email_present)
  next
    case (Some err)
    then show ?thesis using Cons by (simp add: insert_email_unbound)
  qed
qed

text \<open>
  C2 (as the spec states it, refuted). With the cursor at 30, the call
  \<open>update_sync_state conn 10 0\<close> is not a no-op: it stores 10. And a larger value does
  not always succeed: \<open>2^63\<close> raises \<open>OverflowError\<close>.
\<close>

theorem update_sync_state_lower_counterexample:
  "update_sync_state
     (get_connection (empty_db\<lparr>sync_state := Some \<lparr>last_uid = 30, total_messages = 31\<rparr>\<rparr>)) 10 0
     = Inr (get_connection
              (empty_db\<lparr>sync_state := Some \<lparr>last_uid = 10, total_messages = 0\<rparr>\<rparr>))
   \<and> last_uid (get_sync_state
         (empty_db\<lparr>sync_state := Some \<lparr>last_uid = 10, total_messages = 0\<rparr>\<rparr>)) \<noteq> 30
   \<and> update_sync_state
       (get_connection (empty_db\<lparr>sync_state := Some \<lparr>last_uid = 30, total_messages = 31\<rparr>\<rparr>))
       9223372036854775808 0
     = Inl OverflowError"
  by (simp add: update_sync_state_def get_sync_state_def get_connection_def commit_def
      empty_db_def sqlite_int_def)

text \<open>
  C2 (amended). For every stored cursor value \<open>C\<close> (the tables exist and the singleton
  row is present) and all arguments \<open>maxUid\<close> and \<open>total\<close> in the signed 64-bit
  range of an SQLite INTEGER, \<open>update_sync_state\<close> stores \<open>maxUid\<close> as the new
  cursor unconditionally, together with the new total, and commits: a larger value is
  stored, and a smaller value is stored as well, so the cursor can decrease. The other
  tables are untouched. With \<open>maxUid\<close> or \<open>total\<close> outside that range the call
  raises \<open>OverflowError\<close> and changes nothing.
\<close>

theorem update_sync_state_overwrites:
  assumes "schema (in_txn k)" and "sync_state (in_txn k) = Some r"
  shows "(sqlite_int maxUid \<and> sqlite_int tot \<longrightarrow>
            (\<exists>k1. update_sync_state k maxUid tot = Inr k1
                 \<and> on_disk k1 = in_txn k1
                 \<and> get_sync_state (on_disk k1) = r\<lparr>last_uid := maxUid, total_messages := tot\<rparr>
                 \<and> last_uid (get_sync_state (on_disk k1)) = maxUid
                 \<and> emails (on_disk k1) = emails (in_txn k)
                 \<and> deleted_uids (on_disk k1) = deleted_uids (in_txn k)))
       \<and> (\<not> (sqlite_int maxUid \<and> sqlite_int tot) \<longrightarrow>
            update_sync_state k maxUid tot = Inl OverflowError)"
  using assms by (auto simp: update_sync_state_def get_sync_state_def commit_def)

theorem update_sync_state_overwrites_witness:
  "schema (in_txn (get_connection (init_db empty_db)))
   \<and> sync_state (in_txn (get_connection (init_db empty_db)))
     = Some \<lparr>last_uid = 0, total_messages = 0\<rparr>
   \<and> sqlite_int 7 \<and> sqlite_int 8
   \<and> map_sum id (\<lambda>k1. last_uid (get_sync_state (on_disk k1)))
        (update_sync_state (get_connection (init_db empty_db)) 7 8) = Inr 7
   \<and> \<not> sqlite_int 9223372036854775808
   \<and> update_sync_state (get_connection (init_db empty_db)) 9223372036854775808 8
        = Inl OverflowError"
proof -
  have h: "sync_state (in_txn (get_connection (init_db empty_db)))
             = Some \<lparr>last_uid = 0, total_messages = 0\<rparr>"
    by (simp add: init_db_def empty_db_def get_connection_def Let_def)
  have t: "schema (in_txn (get_connection (init_db empty_db)))"
    by (simp add: init_db_def empty_db_def get_connection_def Let_def)
  have r: "sqlite_int 7" "sqlite_int 8" "\<not> sqlite_int 9223372036854775808"
    by (simp_all add: sqlite_int_def)
  show ?thesis
    using t h r update_sync_state_overwrites [OF t h, of 7 8]
      update_sync_state_overwrites [OF t h, of 9223372036854775808 8]
    by auto
qed

text \<open>
  C6 (as the spec states it, refuted). The first insert of uid \<open>2^63\<close> into an empty
  table does not return \<open>True\<close>: binding the uid raises \<open>OverflowError\<close> and nothing
  is stored.
\<close>

theorem insert_email_counterexample:
  "insert_email (get_connection empty_db) (bare_email 9223372036854775808)
     = (Inl OverflowError, get_connection empty_db)"
  by (simp add: insert_email_def bind_email_def bare_email_def sqlite_int_def
      get_connection_def empty_db_def)

text \<open>
  C6 (amended). A record can be bound exactly when its uid and its size are in the signed
  64-bit range of an SQLite INTEGER and its Date value is a string. On a connection to a
  file whose tables exist, take a uid that is not stored yet and a first record with that
  uid that can be bound. In any sequence of
  \<open>insert_email\<close> calls whose records all carry that uid (whatever their other fields),
  the first call returns \<open>True\<close> and stores its record, no later call returns \<open>True\<close>
  (it returns \<open>False\<close>, or raises when its record cannot be bound), and at the end the
  store differs from the initial one only in holding the first record under that uid. An
  insert whose record cannot be bound raises and stores nothing, whether or not the uid is
  present.
\<close>

theorem insert_email_true_once:
  assumes "schema (in_txn k)"
    and "emails (in_txn k) (uid e) = None" and "bind_email e = None"
    and "\<forall>x\<in>set later. uid x = uid e"
  shows "insert_seq k (e # later)
           = (Inr True
                # map (\<lambda>x. case bind_email x of None \<Rightarrow> Inr False | Some err \<Rightarrow> Inl err) later,
              k\<lparr>in_txn := (in_txn k)\<lparr>emails := (emails (in_txn k))(uid e \<mapsto> e)\<rparr>\<rparr>)
       \<and> (\<forall>x err k1. schema (in_txn k1) \<and> bind_email x = Some err
              \<longrightarrow> insert_email k1 x = (Inl err, k1))
       \<and> (\<forall>x. bind_email x = None \<longleftrightarrow>
              sqlite_int (uid x) \<and> (\<exists>s. date_header x = Str s) \<and> sqlite_int (size_bytes x))"
proof -
  let ?k1 = "k\<lparr>in_txn := (in_txn k)\<lparr>emails := (emails (in_txn k))(uid e \<mapsto> e)\<rparr>\<rparr>"
  have first: "insert_email k e = (Inr True, ?k1)"
    using assms(1,3,2) by (rule insert_email_absent)
  have s1: "schema (in_txn ?k1)" using assms(1) by simp
  have "\<forall>x\<in>set later. emails (in_txn ?k1) (uid x) \<noteq> None"
    using assms(4) by simp
  with s1 have rest: "insert_seq ?k1 later
     = (map (\<lambda>x. case bind_email x of None \<Rightarrow> Inr False | Some err \<Rightarrow> Inl err) later, ?k1)"
    by (rule insert_seq_present)
  show ?thesis
    using first rest insert_email_unbound bind_email_None by simp
qed

theorem insert_email_true_once_witness:
  "schema (in_txn (get_connection empty_db))
   \<and> emails (in_txn (get_connection empty_db)) (uid ((bare_email 5)\<lparr>subject := ''first''\<rparr>)) = None
   \<and> bind_email ((bare_email 5)\<lparr>subject := ''first''\<rparr>) = None
   \<and> fst (insert_seq (get_connection empty_db)
        [(bare_email 5)\<lparr>subject := ''first''\<rparr>, (bare_email 5)\<lparr>subject := ''second''\<rparr>,
         (bare_email 5)\<lparr>size_bytes := 9223372036854775808\<rparr>])
       = [Inr True, Inr False, Inl OverflowError]
   \<and> map_option subject (emails (in_txn (snd (insert_seq (get_connection empty_db)
        [(bare_email 5)\<lparr>subject := ''first''\<rparr>, (bare_email 5)\<lparr>subject := ''second''\<rparr>,
         (bare_email 5)\<lparr>size_bytes := 9223372036854775808\<rparr>]))) 5) = Some ''first''"
proof -
  let ?e = "(bare_email 5)\<lparr>subject := ''first''\<rparr>"
  let ?l = "[(bare_email 5)\<lparr>subject := ''second''\<rparr>,
             (bare_email 5)\<lparr>size_bytes := 9223372036854775808\<rparr>]"
  have h0: "schema (in_txn (get_connection empty_db))"
    by (simp add: empty_db_def get_connection_def)
  have h1: "emails (in_txn (get_connection empty_db)) (uid ?e) = None"
    by (simp add: empty_db_def get_connection_def)
  have h2: "bind_email ?e = None"
    by (simp add: bind_email_def bare_email_def sqlite_int_def)
  have h3: "\<forall>x\<in>set ?l. uid x = uid ?e" by (simp add: bare_email_def)
  have b: "bind_email ((bare_email 5)\<lparr>subject := ''second''\<rparr>) = None"
    "bind_email ((bare_email 5)\<lparr>size_bytes := 9223372036854775808\<rparr>) = Some OverflowError"
    by (simp_all add: bind_email_def bare_email_def sqlite_int_def)
  have eq: "insert_seq (get_connection empty_db) (?e # ?l)
      = (Inr True
           # map (\<lambda>x. case bind_email x of None \<Rightarrow> Inr False | Some err \<Rightarrow> Inl err) ?l,
         (get_connection empty_db)
           \<lparr>in_txn := (in_txn (get_connection empty_db))
              \<lparr>emails := (emails (in_txn (get_connection empty_db)))(uid ?e \<mapsto> ?e)\<rparr>\<rparr>)"
    using insert_email_true_once [OF h0 h1 h2 h3] by blast
  have flags: "fst (insert_seq (get_connection empty_db) (?e # ?l))
                 = [Inr True, Inr False, Inl OverflowError]"
    unfolding eq by (simp add: b)
  have kept: "map_option subject (emails (in_txn (snd (insert_seq (get_connection empty_db)
                (?e # ?l)))) 5) = Some ''first''"
    unfolding eq by (simp add: bare_email_def)
  show ?thesis using h0 h1 h2 flags kept by simp
qed

section \<open>Properties of the loops over batches\<close>

lemma div_add_step: "0 < (b::nat) \<Longrightarrow> (a + b) div b = Suc (a div b)"
  using div_add_self2 [of b a] by simp

lemma range_from_len:
  "0 < bs \<Longrightarrow> length (range_from i n bs) = (n - i + bs - 1) div bs"
proof (induction i n bs rule: range_from.induct)
  case (1 i stop step)
  show ?case
  proof (cases "stop \<le> i")
    case True
    then show ?thesis using 1(2) by (simp add: range_from.simps)
  next
    case False
    then have unfold:
      "length (range_from i stop step) = Suc (length (range_from (i + step) stop step))"
      using 1(2) by (subst range_from.simps) simp
    have ih: "length (range_from (i + step) stop step) = (stop - (i + step) + step - 1) div step"
      using 1 False by simp
    have "Suc ((stop - (i + step) + step - 1) div step) = (stop - i + step - 1) div step"
    proof (cases "step \<le> stop - i")
      case True
      have e: "stop - i + step - 1 = (stop - (i + step) + step - 1) + step"
        using True 1(2) False by arith
      have "((stop - (i + step) + step - 1) + step) div step
              = Suc ((stop - (i + step) + step - 1) div step)"
        using 1(2) by (rule div_add_step)
      then show ?thesis by (simp only: e)
    next
      case small: False
      have a: "(stop - (i + step) + step - 1) div step = 0"
        using small 1(2) by simp
      have "step * 1 \<le> stop - i + step - 1" using False by simp
      moreover have "stop - i + step - 1 < step * Suc 1" using small 1(2) by simp
      ultimately have "(stop - i + step - 1) div step = 1" by (rule div_nat_eqI)
      then show ?thesis using a by simp
    qed
    then show ?thesis using unfold ih by simp
  qed
qed

lemma concat_slices:
  "0 < bs \<Longrightarrow>
   concat (map (\<lambda>i. py_slice xs i (i + bs)) (range_from i (length xs) bs)) = drop i xs"
proof (induction i "length xs" bs rule: range_from.induct)
  case (1 i step)
  show ?case
  proof (cases "length xs \<le> i")
    case True
    then show ?thesis by (simp add: range_from.simps)
  next
    case False
    then have "range_from i (length xs) step = i # range_from (i + step) (length xs) step"
      using 1(2) by (subst range_from.simps) simp
    moreover have
      "concat (map (\<lambda>i. py_slice xs i (i + step)) (range_from (i + step) (length xs) step))
         = drop (i + step) xs"
      using 1 False by simp
    ultimately show ?thesis
      by (simp add: py_slice_def add.commute[of i step] flip: drop_drop)
  qed
qed

lemma concat_batches_of: "0 < bs \<Longrightarrow> concat (batches_of uids bs) = uids"
  using concat_slices [of bs uids 0] by (simp add: batches_of_def)

lemma total_len_Cons: "total_len (b # bs) = int (length b) + total_len bs"
  by (simp add: total_len_def)

lemma total_len_Nil: "total_len [] = 0"
  by (simp add: total_len_def)


section \<open>Properties of the deletion engine\<close>

lemma delete_messages_result_indep:
  "fst (delete_messages srv b x c) = fst (delete_messages srv b x c')"
  by (simp add: delete_messages_def select_all_mail_def Let_def
      split: reply.splits option.splits)

lemma delete_ok_iff:
  "delete_ok srv b = (\<exists>n. fst (delete_messages srv b True c) = Inr n)"
  unfolding delete_ok_def
  by (subst delete_messages_result_indep [of srv b True new_client c])
    (auto split: sum.splits)

lemma delete_messages_value:
  "delete_messages srv b x c = (Inr n, c1) \<Longrightarrow> n = int (length b)"
  by (auto simp: delete_messages_def select_all_mail_def Let_def
      split: if_splits reply.splits option.splits prod.splits sum.splits)

lemma delete_ok_steps:
  "delete_ok srv b \<longleftrightarrow>
     b = [] \<or> (select_ok srv False \<and> store_ok srv b \<and> on_expunge srv = None
               \<and> select_ok srv True)"
  by (auto simp: delete_ok_def delete_messages_def select_all_mail_def Let_def
      select_ok_def store_ok_def split: reply.splits option.splits)

lemma insert_tombstones_ok:
  "list_all sqlite_int us \<Longrightarrow>
   insert_tombstones d us = (None, d\<lparr>deleted_uids := set us \<union> deleted_uids d\<rparr>)"
proof (induction us arbitrary: d)
  case Nil
  then show ?case by simp
next
  case (Cons u us)
  then show ?case
    using Cons.IH [of "d\<lparr>deleted_uids := insert u (deleted_uids d)\<rparr>"] by simp
qed

lemma insert_tombstones_fail:
  "\<not> list_all sqlite_int us \<Longrightarrow>
   fst (insert_tombstones d us) = Some OverflowError
   \<and> schema (snd (insert_tombstones d us)) = schema d
   \<and> emails (snd (insert_tombstones d us)) = emails d
   \<and> sync_state (snd (insert_tombstones d us)) = sync_state d
   \<and> deleted_uids d \<subseteq> deleted_uids (snd (insert_tombstones d us))
   \<and> deleted_uids (snd (insert_tombstones d us)) \<subseteq> deleted_uids d \<union> set us"
proof (induction us arbitrary: d)
  case Nil
  then show ?case by simp
next
  case (Cons u us)
  show ?case
  proof (cases "sqlite_int u")
    case True
    then have "\<not> list_all sqlite_int us" using Cons.prems by simp
    from Cons.IH [OF this, of "d\<lparr>deleted_uids := insert u (deleted_uids d)\<rparr>"] True
    show ?thesis by auto
  next
    case False
    then show ?thesis by auto
  qed
qed

lemma delete_rows_ok:
  "list_all sqlite_int us \<Longrightarrow>
   delete_rows d us = (None, d\<lparr>emails := (\<lambda>u. if u \<in> set us then None else emails d u)\<rparr>)"
proof (induction us arbitrary: d)
  case Nil
  then show ?case by simp
next
  case (Cons u us)
  have "(\<lambda>v. if v \<in> set us then None else ((emails d)(u := None)) v)
          = (\<lambda>v. if v \<in> set (u # us) then None else emails d v)"
    by (auto simp: fun_eq_iff)
  then show ?case
    using Cons.prems Cons.IH [of "d\<lparr>emails := (emails d)(u := None)\<rparr>"]
    by (simp cong: if_cong)
qed

text \<open>What a \<open>mark_deleted\<close> that goes through leaves in the file.\<close>

lemma mark_deleted_ok:
  assumes "storable (in_txn k) b"
  shows "mark_deleted k b
           = (None, get_connection
                ((in_txn k)\<lparr>deleted_uids := set b \<union> deleted_uids (in_txn k),
                           emails := (\<lambda>u. if u \<in> set b then None else emails (in_txn k) u)\<rparr>))"
  using assms
  by (cases k)
    (simp add: mark_deleted_def storable_def insert_tombstones_ok delete_rows_ok
      commit_def get_connection_def cong: if_cong)

lemma mark_deleted_fail:
  assumes "\<not> storable (in_txn k) b"
  shows "fst (mark_deleted k b) \<noteq> None
       \<and> on_disk (snd (mark_deleted k b)) = on_disk k
       \<and> schema (in_txn (snd (mark_deleted k b))) = schema (in_txn k)
       \<and> emails (in_txn (snd (mark_deleted k b))) = emails (in_txn k)
       \<and> sync_state (in_txn (snd (mark_deleted k b))) = sync_state (in_txn k)
       \<and> deleted_uids (in_txn k) \<subseteq> deleted_uids (in_txn (snd (mark_deleted k b)))
       \<and> deleted_uids (in_txn (snd (mark_deleted k b))) \<subseteq> deleted_uids (in_txn k) \<union> set b"
proof (cases "schema (in_txn k)")
  case False
  then show ?thesis by (simp add: mark_deleted_def)
next
  case True
  then have bad: "\<not> list_all sqlite_int b" using assms by (simp add: storable_def)
  obtain r d1 where i: "insert_tombstones (in_txn k) b = (r, d1)"
    by (cases "insert_tombstones (in_txn k) b")
  then show ?thesis
    using True insert_tombstones_fail [OF bad, of "in_txn k"]
    by (simp add: mark_deleted_def)
qed

lemma delete_batch_stats:
  "dstats (delete_batch srv b s)
     = (dstats s)
         \<lparr>deleted := deleted (dstats s) + (if delete_ok srv b then int (length b) else 0),
          del_errors := del_errors (dstats s)
            + (if \<not> delete_ok srv b \<or> \<not> storable (in_txn (dstore s)) b
               then int (length b) else 0)\<rparr>"
proof (cases "delete_ok srv b")
  case True
  then obtain n where n: "fst (delete_messages srv b True (dclient s)) = Inr n"
    using delete_ok_iff by blast
  then obtain c1 where c1: "delete_messages srv b True (dclient s) = (Inr n, c1)"
    by (cases "delete_messages srv b True (dclient s)") auto
  then have len: "n = int (length b)" by (rule delete_messages_value)
  show ?thesis
  proof (cases "storable (in_txn (dstore s)) b")
    case ok: True
    then show ?thesis
      using True c1 len mark_deleted_ok [OF ok] by (simp add: delete_batch_def Let_def)
  next
    case bad: False
    obtain e k1 where "mark_deleted (dstore s) b = (Some e, k1)"
      using mark_deleted_fail [OF bad] by (cases "mark_deleted (dstore s) b") auto
    then show ?thesis
      using True c1 len bad by (simp add: delete_batch_def Let_def)
  qed
next
  case False
  then have "\<not> (\<exists>n. fst (delete_messages srv b True (dclient s)) = Inr n)"
    using delete_ok_iff by blast
  then obtain e c1 where c1: "delete_messages srv b True (dclient s) = (Inl e, c1)"
    by (cases "delete_messages srv b True (dclient s)";
        cases "fst (delete_messages srv b True (dclient s))") auto
  then show ?thesis using False by (simp add: delete_batch_def)
qed

lemma delete_batch_store:
  "dstore (delete_batch srv b s)
     = (if delete_ok srv b then snd (mark_deleted (dstore s) b) else dstore s)"
proof (cases "delete_ok srv b")
  case True
  then obtain n where n: "fst (delete_messages srv b True (dclient s)) = Inr n"
    using delete_ok_iff by blast
  then obtain c1 where c1: "delete_messages srv b True (dclient s) = (Inr n, c1)"
    by (cases "delete_messages srv b True (dclient s)") auto
  then show ?thesis
    using True by (simp add: delete_batch_def Let_def split: prod.splits option.splits)
next
  case False
  then have "\<not> (\<exists>n. fst (delete_messages srv b True (dclient s)) = Inr n)"
    using delete_ok_iff by blast
  then obtain e c1 where c1: "delete_messages srv b True (dclient s) = (Inl e, c1)"
    by (cases "delete_messages srv b True (dclient s)";
        cases "fst (delete_messages srv b True (dclient s))") auto
  then show ?thesis using False by (simp add: delete_batch_def)
qed

lemma mark_deleted_schema:
  "schema (in_txn (snd (mark_deleted k b))) = schema (in_txn k)"
proof (cases "storable (in_txn k) b")
  case True
  then show ?thesis by (simp add: mark_deleted_ok get_connection_def)
next
  case False
  then show ?thesis using mark_deleted_fail by blast
qed

lemma delete_batch_schema:
  "schema (in_txn (dstore (delete_batch srv b s))) = schema (in_txn (dstore s))"
  by (simp add: delete_batch_store mark_deleted_schema)

lemma delete_loop_stats:
  "dstats (delete_loop srv uids bs starts s)
     = (dstats s)
         \<lparr>deleted := deleted (dstats s)
            + total_len (filter (delete_ok srv) (map (\<lambda>i. py_slice uids i (i + bs)) starts)),
          del_errors := del_errors (dstats s)
            + total_len (filter (\<lambda>b. \<not> delete_ok srv b \<or> \<not> storable (in_txn (dstore s)) b)
                (map (\<lambda>i. py_slice uids i (i + bs)) starts))\<rparr>"
proof (induction starts arbitrary: s)
  case Nil
  then show ?case by (simp add: total_len_Nil)
next
  case (Cons i starts)
  let ?b = "py_slice uids i (i + bs)"
  have same: "storable (in_txn (dstore (delete_batch srv ?b s))) = storable (in_txn (dstore s))"
    by (simp add: storable_def delete_batch_schema fun_eq_iff)
  show ?case
    using Cons [of "delete_batch srv ?b s"] delete_batch_stats [of srv ?b s]
    by (simp add: same total_len_Cons)
qed

text \<open>
  The connection after the loop: each batch whose \<open>delete_messages\<close> returns is handed
  to \<open>mark_deleted\<close>, whatever that does.
\<close>

lemma delete_loop_store:
  "dstore (delete_loop srv uids bs starts s)
     = fold (\<lambda>b k. if delete_ok srv b then snd (mark_deleted k b) else k)
         (map (\<lambda>i. py_slice uids i (i + bs)) starts) (dstore s)"
  by (induction starts arbitrary: s) (simp_all add: delete_batch_store)






lemma fold_mark_schema:
  "schema (in_txn (fold (\<lambda>b k. if P b then snd (mark_deleted k b) else k) bs k))
     = schema (in_txn k)"
  by (induction bs arbitrary: k) (simp_all add: mark_deleted_schema)






lemma delete_emails_run:
  assumes "connect srv new_client = (Inr (), c)" and "0 < batch_size" and "uids \<noteq> []"
  shows "\<exists>log. delete_emails srv True uids batch_size d
     = (Inr \<lparr>deleted = total_len (filter (delete_ok srv) (batches_of uids (nat batch_size))),
             del_errors = total_len (filter (\<lambda>b. \<not> delete_ok srv b \<or> \<not> storable d b)
                            (batches_of uids (nat batch_size))),
             not_found = 0\<rparr>,
        on_disk (fold (\<lambda>b k. if delete_ok srv b then snd (mark_deleted k b) else k)
          (batches_of uids (nat batch_size)) (get_connection d)),
        log)"
  using assms
    delete_loop_stats [of srv uids "nat batch_size" "range_from 0 (length uids) (nat batch_size)"
      "\<lparr>dstats = del_stats0, dstore = get_connection d, dclient = c\<rparr>"]
    delete_loop_store [of srv uids "nat batch_size" "range_from 0 (length uids) (nat batch_size)"
      "\<lparr>dstats = del_stats0, dstore = get_connection d, dclient = c\<rparr>"]
  by (simp add: delete_emails_def py_range_def batches_of_def Let_def del_stats0_def
      get_connection_def)


text \<open>
  C3. The failing case of the claim, evaluated: a single uid, a server that accepts both
  selects and answers the STORE with a status other than OK. \<open>delete_messages\<close> raises
  right after the STORE; the last select it has sent is the read-write one, and no
  read-only select follows.
\<close>

theorem delete_messages_store_refused:
  "delete_messages (quiet_server\<lparr>on_store := \<lambda>uids. Reply False ()\<rparr>) [5] True connected_client
     = (Inl (RuntimeError ''Failed to mark deleted''),
        \<lparr>conn = True, sent = [LOGIN, SELECT True, SELECT False, UID_STORE_DELETED [5]]\<rparr>)"
  by (simp add: delete_messages_def select_all_mail_def send_def quiet_server_def
      connected_client_def)




text \<open>
  C10 (as stated, refuted). The STORE is answered OK and the \<open>expunge\<close> call that follows
  raises (a dropped connection): \<open>delete_messages\<close> raises and returns no count.
\<close>

theorem delete_messages_after_store_counterexample:
  "store_ok (quiet_server\<lparr>on_expunge := Some LibraryError\<rparr>) [5]
   \<and> fst (delete_messages (quiet_server\<lparr>on_expunge := Some LibraryError\<rparr>) [5] True
          connected_client) \<noteq> Inr 1
   \<and> fst (delete_messages (quiet_server\<lparr>on_expunge := Some LibraryError\<rparr>) [5] True
          connected_client) = Inl LibraryError"
  by (simp add: delete_messages_def select_all_mail_def send_def quiet_server_def
      connected_client_def store_ok_def)

text \<open>
  C10 (amended). \<open>delete_messages\<close> with \<open>expunge=True\<close> returns exactly when its list
  is empty or the read-write select, the STORE, the expunge and the read-only select all
  go through; whenever it returns, with or without expunge, the value is the length of its
  input, whatever the server holds. Consequently the \<open>deleted\<close> statistic of a run of
  \<open>delete_emails\<close> that has its connection is the total number of uids in the batches
  for which \<open>delete_messages\<close> returned, whether or not \<open>mark_deleted\<close> then raised.
\<close>

theorem deleted_counts_batch_lengths:
  assumes "connect srv new_client = (Inr (), c)" and "0 < batch_size" and "uids \<noteq> []"
  shows "(delete_ok srv b \<longleftrightarrow>
            b = [] \<or> (select_ok srv False \<and> store_ok srv b \<and> on_expunge srv = None
                      \<and> select_ok srv True))
       \<and> (delete_ok srv b \<longrightarrow> fst (delete_messages srv b True c0) = Inr (int (length b)))
       \<and> (\<forall>n c1. delete_messages srv b x c0 = (Inr n, c1) \<longrightarrow> n = int (length b))
       \<and> (\<exists>st d1 log.
             delete_emails srv True uids batch_size d = (Inr st, d1, log)
           \<and> deleted st = total_len (filter (delete_ok srv) (batches_of uids (nat batch_size))))"
proof -
  have a: "delete_ok srv b \<longrightarrow> fst (delete_messages srv b True c0) = Inr (int (length b))"
  proof
    assume "delete_ok srv b"
    then obtain n where n: "fst (delete_messages srv b True c0) = Inr n"
      using delete_ok_iff by blast
    then have "delete_messages srv b True c0 = (Inr n, snd (delete_messages srv b True c0))"
      by (metis prod.collapse)
    then have "n = int (length b)" by (rule delete_messages_value)
    then show "fst (delete_messages srv b True c0) = Inr (int (length b))" using n by simp
  qed
  have b: "\<forall>n c1. delete_messages srv b x c0 = (Inr n, c1) \<longrightarrow> n = int (length b)"
    using delete_messages_value by blast
  obtain log where "delete_emails srv True uids batch_size d
     = (Inr \<lparr>deleted = total_len (filter (delete_ok srv) (batches_of uids (nat batch_size))),
             del_errors = total_len (filter (\<lambda>b. \<not> delete_ok srv b \<or> \<not> storable d b)
                            (batches_of uids (nat batch_size))),
             not_found = 0\<rparr>,
        on_disk (fold (\<lambda>b k. if delete_ok srv b then snd (mark_deleted k b) else k)
          (batches_of uids (nat batch_size)) (get_connection d)),
        log)"
    using delete_emails_run [OF assms] by blast
  then have c: "\<exists>st d1 log.
             delete_emails srv True uids batch_size d = (Inr st, d1, log)
           \<and> deleted st = total_len (filter (delete_ok srv) (batches_of uids (nat batch_size)))"
    by simp
  show ?thesis using delete_ok_steps [of srv b] a b c by blast
qed

theorem deleted_counts_batch_lengths_witness:
  "connect (quiet_server\<lparr>on_store := \<lambda>us. Reply (us \<noteq> [3, 4]) ()\<rparr>) new_client
     = (Inr (), connected_client)
   \<and> (0::int) < 2 \<and> [1, 2, 3, 4, 5] \<noteq> ([]::int list)
   \<and> delete_ok (quiet_server\<lparr>on_store := \<lambda>us. Reply (us \<noteq> [3, 4]) ()\<rparr>) [1, 2]
   \<and> fst (delete_messages (quiet_server\<lparr>on_store := \<lambda>us. Reply (us \<noteq> [3, 4]) ()\<rparr>) [1, 2]
          True connected_client) = Inr 2
   \<and> (\<exists>st d1 log.
         delete_emails (quiet_server\<lparr>on_store := \<lambda>us. Reply (us \<noteq> [3, 4]) ()\<rparr>) True
           [1, 2, 3, 4, 5] 2 empty_db = (Inr st, d1, log)
       \<and> deleted st = 3)"
proof -
  let ?srv = "quiet_server\<lparr>on_store := \<lambda>us. Reply (us \<noteq> [3, 4]) ()\<rparr>"
  have h1: "connect ?srv new_client = (Inr (), connected_client)"
    by (simp add: connect_def select_all_mail_def send_def quiet_server_def new_client_def
        connected_client_def)
  have h2: "(0::int) < 2" by simp
  have h3: "[1, 2, 3, 4, 5] \<noteq> ([]::int list)" by simp
  have bs: "batches_of [1, 2, 3, 4, 5] 2 = [[1, 2], [3, 4], [5]]"
    by (simp add: batches_of_def range_from.simps py_slice_def)
  have ok: "delete_ok ?srv [1, 2]" "\<not> delete_ok ?srv [3, 4]" "delete_ok ?srv [5]"
    by (simp_all add: delete_ok_steps select_ok_def store_ok_def quiet_server_def)
  show ?thesis
    using deleted_counts_batch_lengths [OF h1 h2 h3, of "[1, 2]" connected_client True empty_db]
      h1 ok
    by (auto simp: bs total_len_def)
qed

section \<open>Properties of the batched retriever\<close>

lemma range_from_nth:
  "0 < bs \<Longrightarrow> k < length (range_from i n bs) \<Longrightarrow> range_from i n bs ! k = i + k * bs"
proof (induction i n bs arbitrary: k rule: range_from.induct)
  case (1 i stop step)
  show ?case
  proof (cases "stop \<le> i")
    case True
    then show ?thesis using 1(3) by (simp add: range_from.simps)
  next
    case False
    then have unfold: "range_from i stop step = i # range_from (i + step) stop step"
      using 1(2) by (subst range_from.simps) simp
    show ?thesis
    proof (cases k)
      case 0
      then show ?thesis by (simp add: unfold)
    next
      case (Suc j)
      then have "j < length (range_from (i + step) stop step)"
        using 1(3) unfold by simp
      then have "range_from (i + step) stop step ! j = i + step + j * step"
        using 1(1) [of j] 1(2) False by simp
      then show ?thesis by (simp add: unfold Suc)
    qed
  qed
qed

lemma range_from_below: "x \<in> set (range_from i n bs) \<Longrightarrow> x < n"
proof (induction i n bs rule: range_from.induct)
  case (1 i stop step)
  show ?case
  proof (cases "step = 0 \<or> stop \<le> i")
    case True
    then show ?thesis using 1(2) by (simp add: range_from.simps)
  next
    case False
    then have "range_from i stop step = i # range_from (i + step) stop step"
      by (subst range_from.simps) simp
    then show ?thesis using 1 False by auto
  qed
qed

lemma py_slice_nonempty: "i < length xs \<Longrightarrow> 0 < bs \<Longrightarrow> py_slice xs i (i + bs) \<noteq> []"
  by (simp add: py_slice_def)

lemma py_slice_subset: "set (py_slice xs i j) \<subseteq> set xs"
  unfolding py_slice_def using set_take_subset set_drop_subset by fast

lemma batches_of_nonempty: "0 < bs \<Longrightarrow> b \<in> set (batches_of uids bs) \<Longrightarrow> b \<noteq> []"
  using py_slice_nonempty [of _ uids bs] by (auto simp: batches_of_def dest!: range_from_below)

lemma batches_of_nth:
  assumes "0 < bs" and "k < length (batches_of uids bs)"
  shows "batches_of uids bs ! k = take bs (drop (k * bs) uids)"
proof -
  have "k < length (range_from 0 (length uids) bs)"
    using assms(2) by (simp add: batches_of_def)
  then show ?thesis
    using range_from_nth [OF assms(1), of k 0 "length uids"]
    by (simp add: batches_of_def py_slice_def)
qed

lemma fetch_requests_append:
  "fetch_requests (xs @ ys) = fetch_requests xs @ fetch_requests ys"
  by (induction xs rule: fetch_requests.induct) simp_all

lemma fetch_headers_nonempty:
  "us \<noteq> [] \<Longrightarrow>
   fetch_requests (sent (snd (fetch_headers srv us c))) = fetch_requests (sent c) @ [us]
   \<and> (fetch_ok srv us \<longleftrightarrow> (\<exists>b. fst (fetch_headers srv us c) = Inr b))"
  by (auto simp: fetch_headers_def fetch_ok_def send_def Let_def fetch_requests_append
      split: reply.splits)

lemma fetch_headers_failed:
  "us \<noteq> [] \<Longrightarrow> \<not> fetch_ok srv us \<Longrightarrow>
   fst (fetch_headers srv us c) = Inl (fetch_error srv us)"
  by (auto simp: fetch_headers_def fetch_ok_def fetch_error_def Let_def split: reply.splits)

text \<open>
  Whatever the consumer's loop body does, the loop ends without an exception only if
  every FETCH was answered OK.
\<close>

lemma for_batches_None:
  assumes "\<forall>b\<in>set (map (\<lambda>i. py_slice uids i (i + bs)) starts). b \<noteq> []"
    and "fst (for_batches srv uids bs starts body s c) = None"
  shows "\<forall>b\<in>set (map (\<lambda>i. py_slice uids i (i + bs)) starts). fetch_ok srv b"
  using assms
proof (induction starts arbitrary: s c)
  case Nil
  then show ?case by simp
next
  case (Cons i starts)
  let ?b = "py_slice uids i (i + bs)"
  have ne: "?b \<noteq> []" using Cons.prems(1) by simp
  have rest: "\<forall>b\<in>set (map (\<lambda>i. py_slice uids i (i + bs)) starts). b \<noteq> []"
    using Cons.prems(1) by simp
  obtain r c1 where f: "fetch_headers srv ?b c = (r, c1)" by (cases "fetch_headers srv ?b c")
  have ok: "fetch_ok srv ?b \<longleftrightarrow> (\<exists>bd. r = Inr bd)"
    using fetch_headers_nonempty [OF ne, of srv c] f by simp
  show ?case
  proof (cases r)
    case (Inl e)
    then show ?thesis using f Cons.prems(2) by simp
  next
    case (Inr bd)
    then have here: "fetch_ok srv ?b" using ok by simp
    obtain r1 s1 where b: "body s bd = (r1, s1)" by (cases "body s bd")
    show ?thesis
    proof (cases r1)
      case None
      then have "fst (for_batches srv uids bs starts body s1 c1) = None"
        using f Inr b Cons.prems(2) by simp
      from Cons.IH [OF rest this] here show ?thesis by simp
    next
      case (Some e)
      then show ?thesis using f Inr b Cons.prems(2) by simp
    qed
  qed
qed

text \<open>With a loop body that does not raise: the FETCH commands sent and how the loop ends.\<close>

lemma for_batches_requests:
  assumes "\<forall>b\<in>set (map (\<lambda>i. py_slice uids i (i + bs)) starts). b \<noteq> []"
  shows "fetch_requests (sent (snd (snd (for_batches srv uids bs starts (total_body f) s c))))
           = fetch_requests (sent c)
             @ issued_until_failure srv (map (\<lambda>i. py_slice uids i (i + bs)) starts)
       \<and> fst (for_batches srv uids bs starts (total_body f) s c)
           = map_option (fetch_error srv)
               (find (\<lambda>b. \<not> fetch_ok srv b) (map (\<lambda>i. py_slice uids i (i + bs)) starts))"
  using assms
proof (induction starts arbitrary: s c)
  case Nil
  then show ?case by simp
next
  case (Cons i starts)
  let ?b = "py_slice uids i (i + bs)"
  have ne: "?b \<noteq> []" using Cons.prems by simp
  obtain r c1 where f: "fetch_headers srv ?b c = (r, c1)" by (cases "fetch_headers srv ?b c")
  have log: "fetch_requests (sent c1) = fetch_requests (sent c) @ [?b]"
    and ok: "fetch_ok srv ?b \<longleftrightarrow> (\<exists>bd. r = Inr bd)"
    using fetch_headers_nonempty [OF ne, of srv c] f by simp_all
  show ?case
  proof (cases r)
    case (Inl e)
    then have bad: "\<not> fetch_ok srv ?b" using ok by simp
    then have "e = fetch_error srv ?b"
      using fetch_headers_failed [OF ne bad, of c] f Inl by simp
    then show ?thesis using f Inl log bad by simp
  next
    case (Inr bd)
    then have "fetch_ok srv ?b" using ok by simp
    moreover have "\<forall>b\<in>set (map (\<lambda>i. py_slice uids i (i + bs)) starts). b \<noteq> []"
      using Cons.prems by simp
    ultimately show ?thesis
      using f Inr log Cons.IH [of "f s bd" c1] by (simp add: total_body_def)
  qed
qed

lemma issued_all_ok:
  "\<forall>b\<in>set bs. fetch_ok srv b \<Longrightarrow> issued_until_failure srv bs = bs"
  by (induction bs) simp_all

lemma issued_prefix:
  "k < length bs \<Longrightarrow> \<not> fetch_ok srv (bs ! k) \<Longrightarrow> length (issued_until_failure srv bs) \<le> Suc k"
proof (induction bs arbitrary: k)
  case Nil
  then show ?case by simp
next
  case (Cons b bs)
  then show ?case by (cases k) auto
qed

text \<open>
  C5 (as stated, refuted). Three uids, batch size 1, and a server that answers every
  FETCH with a status other than OK: the generator raises on its first chunk, and one
  FETCH has been issued, not three.
\<close>

theorem fetch_headers_batch_counterexample:
  "fetch_requests (sent (snd (snd
      (fetch_headers_batch (quiet_server\<lparr>on_fetch := \<lambda>us. Reply False []\<rparr>) [1, 2, 3] 1
         (total_body (\<lambda>acc b. acc @ [b])) [] connected_client)))) = [[1]]
   \<and> length ([[1]] :: int list list) \<noteq> (length [1, 2, 3 :: int] + 1 - 1) div 1
   \<and> fst (fetch_headers_batch (quiet_server\<lparr>on_fetch := \<lambda>us. Reply False []\<rparr>) [1, 2, 3] 1
         (total_body (\<lambda>acc b. acc @ [b])) [] connected_client)
       = Some (RuntimeError ''Fetch failed'')"
  by (simp add: fetch_headers_batch_def py_range_def range_from.simps py_slice_def
      fetch_headers_def send_def quiet_server_def connected_client_def)

text \<open>
  C5 (amended). For every list of \<open>N\<close> uids and every batch size \<open>B > 0\<close>, the chunks
  that \<open>fetch_headers_batch\<close> cuts are \<open>ceil(N/B)\<close> in number, the \<open>k\<close>-th being the
  contiguous slice \<open>uids[k*B : k*B + B]\<close>, each of size at most \<open>B\<close>, and their
  concatenation is the input. Consumed by a loop whose body does not raise, it issues one
  FETCH per chunk, in order, up to and including the first chunk whose FETCH fails, and at
  that chunk the exception of \<open>fetch_headers\<close> leaves the generator: it ends without an
  exception exactly when no FETCH fails, and then exactly these \<open>ceil(N/B)\<close> chunks have
  been issued; when the FETCH of chunk \<open>k\<close> fails it raises, and at most \<open>k + 1\<close> chunks
  have been issued. Whatever the loop body does, a generator that ends without an exception
  has had every FETCH answered OK.
\<close>

theorem fetch_headers_batch_chunks:
  assumes "0 < batch_size"
  shows "length (batches_of uids (nat batch_size))
           = (length uids + nat batch_size - 1) div nat batch_size
       \<and> (\<forall>k<length (batches_of uids (nat batch_size)).
             batches_of uids (nat batch_size) ! k
               = take (nat batch_size) (drop (k * nat batch_size) uids)
           \<and> length (batches_of uids (nat batch_size) ! k) \<le> nat batch_size)
       \<and> concat (batches_of uids (nat batch_size)) = uids
       \<and> fetch_requests (sent (snd (snd
             (fetch_headers_batch srv uids batch_size (total_body f) s c))))
           = fetch_requests (sent c)
             @ issued_until_failure srv (batches_of uids (nat batch_size))
       \<and> fst (fetch_headers_batch srv uids batch_size (total_body f) s c)
           = map_option (fetch_error srv)
               (find (\<lambda>b. \<not> fetch_ok srv b) (batches_of uids (nat batch_size)))
       \<and> (fst (fetch_headers_batch srv uids batch_size (total_body f) s c) = None
            \<longleftrightarrow> (\<forall>b\<in>set (batches_of uids (nat batch_size)). fetch_ok srv b))
       \<and> ((\<forall>b\<in>set (batches_of uids (nat batch_size)). fetch_ok srv b) \<longrightarrow>
             issued_until_failure srv (batches_of uids (nat batch_size))
               = batches_of uids (nat batch_size))
       \<and> (\<forall>k<length (batches_of uids (nat batch_size)).
             \<not> fetch_ok srv (batches_of uids (nat batch_size) ! k) \<longrightarrow>
               (\<exists>e. fst (fetch_headers_batch srv uids batch_size (total_body f) s c) = Some e)
             \<and> length (issued_until_failure srv (batches_of uids (nat batch_size))) \<le> Suc k)
       \<and> (fst (fetch_headers_batch srv uids batch_size body s' c) = None
            \<longrightarrow> (\<forall>b\<in>set (batches_of uids (nat batch_size)). fetch_ok srv b))"
proof -
  let ?B = "nat batch_size"
  let ?bs = "batches_of uids ?B"
  have pos: "0 < ?B" using assms by simp
  have len: "length ?bs = (length uids + ?B - 1) div ?B"
    using range_from_len [OF pos, of 0 "length uids"] by (simp add: batches_of_def)
  have nth: "\<forall>k<length ?bs.
               ?bs ! k = take ?B (drop (k * ?B) uids) \<and> length (?bs ! k) \<le> ?B"
    using batches_of_nth [OF pos] by simp
  have cat: "concat ?bs = uids"
    using pos by (rule concat_batches_of)
  have ne: "\<forall>b\<in>set (map (\<lambda>i. py_slice uids i (i + ?B)) (range_from 0 (length uids) ?B)).
              b \<noteq> []"
    using batches_of_nonempty [OF pos, of _ uids] by (simp add: batches_of_def)
  have run: "\<And>body s. fetch_headers_batch srv uids batch_size body s c
               = for_batches srv uids ?B (range_from 0 (length uids) ?B) body s c"
    using assms by (simp add: fetch_headers_batch_def py_range_def)
  have req: "fetch_requests (sent (snd (snd
                (fetch_headers_batch srv uids batch_size (total_body f) s c))))
               = fetch_requests (sent c) @ issued_until_failure srv ?bs"
    and fin: "fst (fetch_headers_batch srv uids batch_size (total_body f) s c)
               = map_option (fetch_error srv) (find (\<lambda>b. \<not> fetch_ok srv b) ?bs)"
    using for_batches_requests [OF ne, of srv f s c] unfolding run batches_of_def
    by blast+
  have iff: "fst (fetch_headers_batch srv uids batch_size (total_body f) s c) = None
               \<longleftrightarrow> (\<forall>b\<in>set ?bs. fetch_ok srv b)"
    unfolding fin by (auto simp: find_None_iff)
  have allok: "(\<forall>b\<in>set ?bs. fetch_ok srv b) \<longrightarrow> issued_until_failure srv ?bs = ?bs"
    using issued_all_ok [of ?bs srv] by blast
  have raises: "\<forall>k<length ?bs. \<not> fetch_ok srv (?bs ! k) \<longrightarrow>
               (\<exists>e. fst (fetch_headers_batch srv uids batch_size (total_body f) s c) = Some e)
             \<and> length (issued_until_failure srv ?bs) \<le> Suc k"
  proof (intro allI impI)
    fix k assume k: "k < length ?bs" and bad: "\<not> fetch_ok srv (?bs ! k)"
    then have "\<not> (\<forall>b\<in>set ?bs. fetch_ok srv b)" using nth_mem by blast
    then have "fst (fetch_headers_batch srv uids batch_size (total_body f) s c) \<noteq> None"
      using iff by simp
    then show "(\<exists>e. fst (fetch_headers_batch srv uids batch_size (total_body f) s c) = Some e)
             \<and> length (issued_until_failure srv ?bs) \<le> Suc k"
      using issued_prefix [OF k bad] by auto
  qed
  have any: "fst (fetch_headers_batch srv uids batch_size body s' c) = None
            \<longrightarrow> (\<forall>b\<in>set ?bs. fetch_ok srv b)"
    using for_batches_None [OF ne, of srv body s' c] unfolding run batches_of_def by blast
  show ?thesis using len nth cat req fin iff allok raises any by blast
qed

theorem fetch_headers_batch_chunks_witness:
  "(0::int) < 2
   \<and> length (batches_of [1, 2, 3, 4, 5] (nat 2)) = 3
   \<and> list_all (fetch_ok quiet_server) (batches_of [1, 2, 3, 4, 5] (nat 2))
   \<and> fetch_requests (sent (snd (snd
        (fetch_headers_batch quiet_server [1, 2, 3, 4, 5] 2 (total_body (\<lambda>acc b. acc @ [b])) []
           connected_client)))) = [[1, 2], [3, 4], [5]]
   \<and> fst (fetch_headers_batch quiet_server [1, 2, 3, 4, 5] 2 (total_body (\<lambda>acc b. acc @ [b])) []
           connected_client) = None"
proof -
  have h: "(0::int) < 2" by simp
  have bs: "batches_of [1, 2, 3, 4, 5] 2 = [[1, 2], [3, 4], [5]]"
    by (simp add: batches_of_def range_from.simps py_slice_def)
  have ok: "\<forall>b\<in>set (batches_of [1, 2, 3, 4, 5] (nat 2)). fetch_ok quiet_server b"
    by (simp add: fetch_ok_def quiet_server_def)
  have log: "fetch_requests (sent connected_client) = []"
    by (simp add: connected_client_def)
  show ?thesis
    using fetch_headers_batch_chunks [OF h, of "[1, 2, 3, 4, 5]" quiet_server
        "\<lambda>acc b. acc @ [b]" "[]" connected_client] ok
    by (simp add: bs log list_all_iff)
qed

section \<open>Properties of the record normaliser\<close>





section \<open>Properties of the fetcher\<close>

lemma py_max_Max: "xs \<noteq> [] \<Longrightarrow> py_max xs = Inr (Max (set xs))"
proof (cases xs)
  case Nil
  assume "xs \<noteq> []"
  then show ?thesis using Nil by simp
next
  case (Cons x rest)
  have "Max (set (x # rest)) = fold max rest x" by (rule Max.set_eq_fold)
  then show ?thesis using Cons by (simp add: py_max_def)
qed

lemma list_uids_result_indep:
  "fst (list_uids srv incremental d c) = fst (list_uids srv incremental d c')"
  by (simp add: list_uids_def search_since_uid_def search_all_def Let_def
      split: reply.splits option.splits)

lemma enumerated_eq:
  "list_uids srv incremental d c = (Inr listed, c1) \<Longrightarrow>
   enumerated srv incremental d = filter (\<lambda>u. u \<notin> get_deleted_uids d) listed"
  using list_uids_result_indep [of srv incremental d new_client c]
  by (simp add: enumerated_def)

lemma enumerated_failed:
  "list_uids srv incremental d c = (Inl e, c1) \<Longrightarrow> enumerated srv incremental d = []"
  using list_uids_result_indep [of srv incremental d new_client c]
  by (simp add: enumerated_def)

lemma enumerated_not_deleted: "u \<in> set (enumerated srv incremental d) \<Longrightarrow> u \<notin> deleted_uids d"
  by (auto simp: enumerated_def get_deleted_uids_def split: sum.splits)

text \<open>The paths through the statements after the loop.\<close>

lemma finish_cases:
  assumes "finish srv uids s c = (r, k1, c1)" and "uids \<noteq> []"
  obtains
    (remaining_failed) e s1 where
      "store_remaining s = (Some e, s1)" "r = Inl e" "k1 = fstore s1" "c1 = c"
  | (status_failed) s1 e where
      "store_remaining s = (None, s1)" "get_uidnext srv c = (Inl e, c1)"
      "r = Inl e" "k1 = fstore s1"
  | (update_failed) s1 uidnext e where
      "store_remaining s = (None, s1)" "get_uidnext srv c = (Inr uidnext, c1)"
      "update_sync_state (fstore s1) (Max (set uids)) uidnext = Inl e"
      "r = Inl e" "k1 = fstore s1"
  | (completed) s1 uidnext where
      "store_remaining s = (None, s1)" "get_uidnext srv c = (Inr uidnext, c1)"
      "update_sync_state (fstore s1) (Max (set uids)) uidnext = Inr k1"
      "r = Inr ((fstats s1)\<lparr>total_fetched := fetched s1\<rparr>)"
proof -
  obtain sr s1 where st: "store_remaining s = (sr, s1)" by (cases "store_remaining s")
  have mx: "py_max uids = Inr (Max (set uids))" using assms(2) by (rule py_max_Max)
  show thesis
  proof (cases sr)
    case (Some e)
    then have "store_remaining s = (Some e, s1)" "r = Inl e" "k1 = fstore s1" "c1 = c"
      using assms(1) st by (simp_all add: finish_def)
    then show thesis by (rule remaining_failed)
  next
    case None
    obtain ur c4 where u: "get_uidnext srv c = (ur, c4)" by (cases "get_uidnext srv c")
    show thesis
    proof (cases ur)
      case (Inl e)
      then have "store_remaining s = (None, s1)" "get_uidnext srv c = (Inl e, c1)"
        "r = Inl e" "k1 = fstore s1"
        using assms st None u mx by (simp_all add: finish_def Let_def)
      then show thesis by (rule status_failed)
    next
      case (Inr uidnext)
      show thesis
      proof (cases "update_sync_state (fstore s1) (Max (set uids)) uidnext")
        case up: (Inl e)
        then have "store_remaining s = (None, s1)" "get_uidnext srv c = (Inr uidnext, c1)"
          "update_sync_state (fstore s1) (Max (set uids)) uidnext = Inl e"
          "r = Inl e" "k1 = fstore s1"
          using assms st None u Inr mx by (simp_all add: finish_def Let_def)
        then show thesis by (rule update_failed)
      next
        case up: (Inr k2)
        then have "store_remaining s = (None, s1)" "get_uidnext srv c = (Inr uidnext, c1)"
          "update_sync_state (fstore s1) (Max (set uids)) uidnext = Inr k1"
          "r = Inr ((fstats s1)\<lparr>total_fetched := fetched s1\<rparr>)"
          using assms st None u Inr mx by (simp_all add: finish_def Let_def)
        then show thesis by (rule completed)
      qed
    qed
  qed
qed

text \<open>The paths through the block of \<open>fetch_all\<close>.\<close>

lemma fetch_all_block_cases:
  assumes "fetch_all_block L srv batch_size incremental k c = (r, k1, c1)"
  obtains
    (list_failed) e where
      "list_uids srv incremental (in_txn k) c = (Inl e, c1)" "r = Inl e" "k1 = k"
  | (none_listed) listed where
      "list_uids srv incremental (in_txn k) c = (Inr listed, c1)"
      "enumerated srv incremental (in_txn k) = []" "r = Inr stats0" "k1 = k"
  | (loop_failed) listed c2 e s where
      "list_uids srv incremental (in_txn k) c = (Inr listed, c2)"
      "enumerated srv incremental (in_txn k) \<noteq> []"
      "fetch_headers_batch srv (enumerated srv incremental (in_txn k)) batch_size
         (loop_body L batch_size) (floop0 k) c2 = (Some e, s, c1)"
      "r = Inl e" "k1 = fstore s"
  | (finished) listed c2 s c3 where
      "list_uids srv incremental (in_txn k) c = (Inr listed, c2)"
      "enumerated srv incremental (in_txn k) \<noteq> []"
      "fetch_headers_batch srv (enumerated srv incremental (in_txn k)) batch_size
         (loop_body L batch_size) (floop0 k) c2 = (None, s, c3)"
      "finish srv (enumerated srv incremental (in_txn k)) s c3 = (r, k1, c1)"
proof -
  let ?d = "in_txn k"
  obtain lr c2 where l: "list_uids srv incremental ?d c = (lr, c2)"
    by (cases "list_uids srv incremental ?d c")
  show thesis
  proof (cases lr)
    case (Inl e)
    have "r = Inl e \<and> k1 = k \<and> c1 = c2"
      using assms l Inl by (simp add: fetch_all_block_def)
    then have "list_uids srv incremental ?d c = (Inl e, c1)" "r = Inl e" "k1 = k"
      using l Inl by simp_all
    then show thesis by (rule list_failed)
  next
    case (Inr listed)
    note en = enumerated_eq [OF l [unfolded Inr]]
    show thesis
    proof (cases "enumerated srv incremental ?d = []")
      case True
      have "filter (\<lambda>u. u \<notin> get_deleted_uids ?d) listed = []" using True en by simp
      then have "r = Inr stats0 \<and> k1 = k \<and> c1 = c2"
        using assms l Inr by (simp add: fetch_all_block_def Let_def)
      then have "list_uids srv incremental ?d c = (Inr listed, c1)"
        "enumerated srv incremental ?d = []" "r = Inr stats0" "k1 = k"
        using l Inr True by simp_all
      then show thesis by (rule none_listed)
    next
      case False
      obtain fe s c3 where f:
        "fetch_headers_batch srv (enumerated srv incremental ?d) batch_size
           (loop_body L batch_size) (floop0 k) c2 = (fe, s, c3)"
        by (metis prod.collapse)
      have ne: "filter (\<lambda>u. u \<notin> get_deleted_uids ?d) listed \<noteq> []" using False en by simp
      have f': "fetch_headers_batch srv (filter (\<lambda>u. u \<notin> get_deleted_uids ?d) listed) batch_size
           (loop_body L batch_size) (floop0 k) c2 = (fe, s, c3)"
        using f by (simp add: en)
      have blk: "fetch_all_block L srv batch_size incremental k c =
        (case fe of
           Some e \<Rightarrow> (Inl e, fstore s, c3)
         | None \<Rightarrow> finish srv (enumerated srv incremental ?d) s c3)"
        unfolding fetch_all_block_def l Inr
        by (simp add: Let_def ne f' en split: option.splits)
      show thesis
      proof (cases fe)
        case (Some e)
        have "r = Inl e \<and> k1 = fstore s \<and> c1 = c3"
          using assms blk Some by simp
        then have "list_uids srv incremental ?d c = (Inr listed, c2)"
          "enumerated srv incremental ?d \<noteq> []"
          "fetch_headers_batch srv (enumerated srv incremental ?d) batch_size
             (loop_body L batch_size) (floop0 k) c2 = (Some e, s, c1)"
          "r = Inl e" "k1 = fstore s"
          using l Inr False f Some by simp_all
        then show thesis by (rule loop_failed)
      next
        case None
        have "list_uids srv incremental ?d c = (Inr listed, c2)"
          "enumerated srv incremental ?d \<noteq> []"
          "fetch_headers_batch srv (enumerated srv incremental ?d) batch_size
             (loop_body L batch_size) (floop0 k) c2 = (None, s, c3)"
          "finish srv (enumerated srv incremental ?d) s c3 = (r, k1, c1)"
          using assms blk l Inr False f None by simp_all
        then show thesis by (rule finished)
      qed
    qed
  qed
qed

lemma fetch_all_cases:
  assumes "fetch_all L srv credentials batch_size incremental d0 = (r, d1, log)"
  obtains
    (no_credentials) "\<not> credentials" "r = Inl ValueError" "d1 = init_db d0" "log = []"
  | (no_connection) e c where
      "credentials" "connect srv new_client = (Inl e, c)"
      "r = Inl e" "d1 = init_db d0" "log = sent c"
  | (block) c k1 c1 where
      "credentials" "connect srv new_client = (Inr (), c)"
      "fetch_all_block L srv batch_size incremental (get_connection (init_db d0)) c
         = (r, k1, c1)"
      "d1 = on_disk k1" "log = sent (disconnect srv c1)"
proof (cases credentials)
  case False
  then have "r = Inl ValueError" "d1 = init_db d0" "log = []"
    using assms by (simp_all add: fetch_all_def Let_def)
  with False show thesis by (rule no_credentials)
next
  case True
  obtain cr c where co: "connect srv new_client = (cr, c)" by (cases "connect srv new_client")
  show thesis
  proof (cases cr)
    case (Inl e)
    then have "connect srv new_client = (Inl e, c)" "r = Inl e" "d1 = init_db d0" "log = sent c"
      using assms True co by (simp_all add: fetch_all_def Let_def)
    with True show thesis by (rule no_connection)
  next
    case (Inr u)
    obtain r' k1 c1 where b:
      "fetch_all_block L srv batch_size incremental (get_connection (init_db d0)) c
         = (r', k1, c1)"
      by (metis prod.collapse)
    then have "connect srv new_client = (Inr (), c)"
      "fetch_all_block L srv batch_size incremental (get_connection (init_db d0)) c
         = (r, k1, c1)"
      "d1 = on_disk k1" "log = sent (disconnect srv c1)"
      using assms True co Inr by (simp_all add: fetch_all_def Let_def)
    with True show thesis by (rule block)
  qed
qed

lemma select_all_mail_log:
  "fetch_requests (sent (snd (select_all_mail srv readonly c))) = fetch_requests (sent c)"
  by (simp add: select_all_mail_def send_def Let_def fetch_requests_append
      split: reply.splits option.splits)

lemma connect_log:
  "fetch_requests (sent (snd (connect srv c))) = fetch_requests (sent c)"
  using select_all_mail_log [of srv True "send LOGIN (c\<lparr>conn := True\<rparr>)"]
  by (auto simp: connect_def send_def Let_def fetch_requests_append
      split: option.splits prod.splits sum.splits)

lemma disconnect_log:
  "fetch_requests (sent (disconnect srv c)) = fetch_requests (sent c)"
  by (simp add: disconnect_def send_def Let_def fetch_requests_append split: option.splits)

lemma list_uids_log:
  "fetch_requests (sent (snd (list_uids srv incremental d c))) = fetch_requests (sent c)"
  by (simp add: list_uids_def search_since_uid_def search_all_def send_def Let_def
      fetch_requests_append split: reply.splits option.splits)

lemma get_uidnext_log:
  "fetch_requests (sent (snd (get_uidnext srv c))) = fetch_requests (sent c)"
  by (simp add: get_uidnext_def send_def Let_def fetch_requests_append
      split: reply.splits option.splits)

lemma fetch_headers_log:
  "set (fetch_requests (sent (snd (fetch_headers srv us c))))
     \<subseteq> insert us (set (fetch_requests (sent c)))"
  by (auto simp: fetch_headers_def send_def Let_def fetch_requests_append split: reply.splits)

lemma for_batches_log:
  "set (fetch_requests (sent (snd (snd (for_batches srv uids bs starts body s c)))))
     \<subseteq> set (fetch_requests (sent c)) \<union> {us. set us \<subseteq> set uids}"
proof (induction starts arbitrary: s c)
  case Nil
  then show ?case by simp
next
  case (Cons i starts)
  let ?b = "py_slice uids i (i + bs)"
  obtain r c1 where f: "fetch_headers srv ?b c = (r, c1)" by (cases "fetch_headers srv ?b c")
  have step: "set (fetch_requests (sent c1))
                \<subseteq> set (fetch_requests (sent c)) \<union> {us. set us \<subseteq> set uids}"
    using fetch_headers_log [of srv ?b c] f py_slice_subset [of uids i "i + bs"] by auto
  show ?case
  proof (cases r)
    case (Inl e)
    then show ?thesis using f step by simp
  next
    case (Inr bd)
    obtain r1 s1 where b: "body s bd = (r1, s1)" by (cases "body s bd")
    show ?thesis
    proof (cases r1)
      case None
      then show ?thesis using f Inr b step Cons.IH [of s1 c1] by auto
    next
      case (Some e)
      then show ?thesis using f Inr b step by simp
    qed
  qed
qed

lemma fetch_headers_batch_log:
  "set (fetch_requests (sent (snd (snd (fetch_headers_batch srv uids batch_size body s c)))))
     \<subseteq> set (fetch_requests (sent c)) \<union> {us. set us \<subseteq> set uids}"
  using for_batches_log [of srv uids "nat batch_size" _ body s c]
  by (simp add: fetch_headers_batch_def split: sum.splits)

lemma finish_log:
  "fetch_requests (sent (snd (snd (finish srv uids s c)))) = fetch_requests (sent c)"
  using get_uidnext_log [of srv c]
  by (auto simp: finish_def Let_def split: prod.splits option.splits sum.splits)

lemma fetch_all_block_log:
  assumes "fetch_all_block L srv batch_size incremental k c = (r, k1, c1)"
  shows "set (fetch_requests (sent c1))
           \<subseteq> set (fetch_requests (sent c))
             \<union> {us. set us \<subseteq> set (enumerated srv incremental (in_txn k))}"
  using assms
proof (cases rule: fetch_all_block_cases)
  case (list_failed e)
  then show ?thesis using list_uids_log [of srv incremental "in_txn k" c] by auto
next
  case (none_listed listed)
  then show ?thesis using list_uids_log [of srv incremental "in_txn k" c] by auto
next
  case (loop_failed listed c2 e s)
  then show ?thesis
    using list_uids_log [of srv incremental "in_txn k" c]
      fetch_headers_batch_log [of srv "enumerated srv incremental (in_txn k)" batch_size
        "loop_body L batch_size" "floop0 k" c2]
    by auto
next
  case (finished listed c2 s c3)
  then show ?thesis
    using list_uids_log [of srv incremental "in_txn k" c]
      finish_log [of srv "enumerated srv incremental (in_txn k)" s c3]
      fetch_headers_batch_log [of srv "enumerated srv incremental (in_txn k)" batch_size
        "loop_body L batch_size" "floop0 k" c2]
    by auto
qed

lemma init_db_deleted_uids: "deleted_uids (init_db d) = deleted_uids d"
  by (simp add: init_db_def Let_def split: option.splits)

lemma init_db_emails: "emails (init_db d) = emails d"
  by (simp add: init_db_def Let_def split: option.splits)

lemma init_db_row: "\<exists>row. sync_state (init_db d) = Some row"
  by (simp add: init_db_def Let_def split: option.splits)

lemma init_db_schema: "schema (init_db d)"
  by (simp add: init_db_def Let_def split: option.splits)

lemma init_db_idem: "schema d \<Longrightarrow> sync_state d = Some row \<Longrightarrow> init_db d = d"
  by (simp add: init_db_def)

text \<open>
  C4. In every run of \<open>fetch_all\<close>, incremental or full, whatever the server lists and
  however the run ends: a uid that is in the tombstone table when the run starts occurs
  in no FETCH command the run sends, and is not among the uids the run works on.
\<close>

theorem tombstones_never_fetched:
  assumes "fetch_all L srv credentials batch_size incremental d0 = (r, d1, log)"
    and "u \<in> deleted_uids d0"
  shows "(\<forall>us\<in>set (fetch_requests log). u \<notin> set us)
       \<and> u \<notin> set (enumerated srv incremental (init_db d0))"
proof -
  have out: "u \<notin> set (enumerated srv incremental (init_db d0))"
    using assms(2) enumerated_not_deleted [of u srv incremental "init_db d0"]
    by (auto simp: init_db_deleted_uids)
  have "\<forall>us\<in>set (fetch_requests log). u \<notin> set us"
    using assms(1)
  proof (cases rule: fetch_all_cases)
    case no_credentials
    then show ?thesis by simp
  next
    case (no_connection e c)
    then show ?thesis using connect_log [of srv new_client] by (simp add: new_client_def)
  next
    case (block c k1 c1)
    have "fetch_requests (sent c) = []"
      using connect_log [of srv new_client] block(2) by (simp add: new_client_def)
    then have "set (fetch_requests log)
                 \<subseteq> {us. set us \<subseteq> set (enumerated srv incremental (init_db d0))}"
      using fetch_all_block_log [OF block(3)] block(5)
      by (simp add: disconnect_log get_connection_def)
    then show ?thesis using out by auto
  qed
  then show ?thesis using out by simp
qed

theorem tombstones_never_fetched_witness:
  "(20::int) \<in> deleted_uids (empty_db\<lparr>deleted_uids := {20}\<rparr>)
   \<and> fetch_requests (snd (snd (fetch_all plain_lib three_mail_server True 2 True
        (empty_db\<lparr>deleted_uids := {20}\<rparr>)))) = [[10, 30]]
   \<and> fetch_requests (snd (snd (fetch_all plain_lib three_mail_server True 2 False
        (empty_db\<lparr>deleted_uids := {20}\<rparr>)))) = [[10, 30]]
   \<and> list_all (\<lambda>us. 20 \<notin> set us)
        (fetch_requests (snd (snd (fetch_all plain_lib three_mail_server True 2 True
           (empty_db\<lparr>deleted_uids := {20}\<rparr>)))))"
proof -
  let ?d = "empty_db\<lparr>deleted_uids := {20}\<rparr>"
  have h: "(20::int) \<in> deleted_uids ?d" by simp
  have run: "fetch_requests (snd (snd (fetch_all plain_lib three_mail_server True 2 incremental
               ?d))) = [[10, 30]]" for incremental
    by (simp add: fetch_all_def fetch_all_block_def Let_def init_db_def empty_db_def
      connect_def select_all_mail_def send_def new_client_def disconnect_def
      three_mail_server_def quiet_server_def plain_lib_def
      list_uids_def search_all_def search_since_uid_def get_sync_state_def
      get_deleted_uids_def fetch_headers_batch_def py_range_def range_from.simps
      py_slice_def fetch_headers_def parse_fetch_response_def floop0_def stats0_def
      loop_body_def parse_headers_def and_then_def decode_header_value_def decode_part_def
      msg_get_def extract_email_address_def parse_date_def falsy_def strip_message_id_def
      finish_def get_connection_def commit_def bind_email_def sqlite_int_def
      store_remaining_def store_batch_def insert_emails_batch_def insert_email_def
      py_max_def get_uidnext_def update_sync_state_def)
  have "fetch_all plain_lib three_mail_server True 2 True ?d
          = (fst (fetch_all plain_lib three_mail_server True 2 True ?d),
             fst (snd (fetch_all plain_lib three_mail_server True 2 True ?d)),
             snd (snd (fetch_all plain_lib three_mail_server True 2 True ?d)))"
    by simp
  from tombstones_never_fetched [OF this h]
  have "list_all (\<lambda>us. 20 \<notin> set us)
        (fetch_requests (snd (snd (fetch_all plain_lib three_mail_server True 2 True ?d))))"
    by (simp add: list_all_iff)
  then show ?thesis using h run by simp
qed

text \<open>What the inserts of a run leave alone.\<close>

lemma insert_email_tables:
  "same_tables k d \<Longrightarrow> same_tables (snd (insert_email k e)) d"
  by (simp add: insert_email_def same_tables_def split: option.splits)

lemma insert_loop_tables:
  "same_tables k d \<Longrightarrow> same_tables (snd (insert_loop k es n)) d"
proof (induction es arbitrary: k n)
  case Nil
  then show ?case by simp
next
  case (Cons e es)
  obtain b k' where i: "insert_email k e = (b, k')" by (cases "insert_email k e")
  then have t: "same_tables k' d" using insert_email_tables [OF Cons.prems, of e] by simp
  show ?case
  proof (cases b)
    case (Inl err)
    then show ?thesis using i t by simp
  next
    case (Inr x)
    then show ?thesis using i Cons.IH [OF t] by (cases x) simp_all
  qed
qed

lemma commit_tables: "same_tables k d \<Longrightarrow> same_tables (commit k) d"
  by (simp add: same_tables_def commit_def)

lemma insert_emails_batch_tables:
  "same_tables k d \<Longrightarrow> same_tables (snd (insert_emails_batch k es)) d"
  using insert_loop_tables [of k d es 0]
  by (auto simp: insert_emails_batch_def commit_tables split: prod.splits sum.splits)

lemma store_batch_tables:
  "same_tables (fstore s) d \<Longrightarrow> same_tables (fstore (snd (store_batch s))) d"
  using insert_emails_batch_tables [of "fstore s" d "batch_emails s"]
  by (auto simp: store_batch_def split: prod.splits sum.splits)

lemma parse_items_fstore: "fstore (parse_items L b s) = fstore s"
  by (induction L b s rule: parse_items.induct) (simp_all split: sum.splits)

lemma loop_body_tables:
  "same_tables (fstore s) d \<Longrightarrow> same_tables (fstore (snd (loop_body L batch_size s b))) d"
  using store_batch_tables [of "parse_items L b s" d]
  by (auto simp: loop_body_def Let_def parse_items_fstore split: prod.splits option.splits)

lemma store_remaining_tables:
  "same_tables (fstore s) d \<Longrightarrow> same_tables (fstore (snd (store_remaining s))) d"
  using store_batch_tables [of s d] by (simp add: store_remaining_def)

lemma for_batches_invariant:
  assumes "P s" and "\<And>s b. P s \<Longrightarrow> P (snd (body s b))"
  shows "P (fst (snd (for_batches srv uids bs starts body s c)))"
  using assms(1)
proof (induction starts arbitrary: s c)
  case Nil
  then show ?case by simp
next
  case (Cons i starts)
  obtain r c1 where f: "fetch_headers srv (py_slice uids i (i + bs)) c = (r, c1)"
    by (cases "fetch_headers srv (py_slice uids i (i + bs)) c")
  show ?case
  proof (cases r)
    case (Inl e)
    then show ?thesis using f Cons.prems by simp
  next
    case (Inr bd)
    obtain r1 s1 where b: "body s bd = (r1, s1)" by (cases "body s bd")
    have p1: "P s1" using assms(2) [OF Cons.prems, of bd] b by simp
    show ?thesis
    proof (cases r1)
      case None
      then show ?thesis using f Inr b Cons.IH [OF p1, of c1] by simp
    next
      case (Some e)
      then show ?thesis using f Inr b p1 by simp
    qed
  qed
qed

lemma fetch_headers_batch_invariant:
  assumes "P s" and "\<And>s b. P s \<Longrightarrow> P (snd (body s b))"
  shows "P (fst (snd (fetch_headers_batch srv uids batch_size body s c)))"
  using for_batches_invariant [of P s body srv uids "nat batch_size" _ c] assms
  by (simp add: fetch_headers_batch_def split: sum.splits)

lemma same_tables_get_connection: "same_tables (get_connection d) d"
  by (simp add: same_tables_def get_connection_def)

lemma fetch_loop_tables:
  assumes "fetch_headers_batch srv uids batch_size (loop_body L batch_size) (floop0 k) c
             = (fe, s, c1)"
    and "same_tables k d"
  shows "same_tables (fstore s) d"
proof -
  let ?P = "\<lambda>s. same_tables (fstore s) d"
  have "?P (floop0 k)" using assms(2) by (simp add: floop0_def)
  moreover have "\<And>s b. ?P s \<Longrightarrow> ?P (snd (loop_body L batch_size s b))"
    by (rule loop_body_tables)
  ultimately have "?P (fst (snd (fetch_headers_batch srv uids batch_size
                      (loop_body L batch_size) (floop0 k) c)))"
    by (rule fetch_headers_batch_invariant)
  then show ?thesis using assms(1) by simp
qed

text \<open>
  After the statements that follow the loop: the cursor is the maximum when they return,
  and the sync state is untouched when one of them raises.
\<close>

lemma finish_cursor:
  assumes "finish srv uids s c = (r, k1, c1)" and "uids \<noteq> []"
    and "same_tables (fstore s) d" and "sync_state d = Some row"
  shows "(\<forall>st. r = Inr st \<longrightarrow> last_uid (get_sync_state (on_disk k1)) = Max (set uids))
       \<and> (\<forall>e. r = Inl e \<longrightarrow> sync_state (on_disk k1) = sync_state d)
       \<and> (\<not> uidnext_ok srv \<longrightarrow> (\<exists>e. r = Inl e))"
  using assms(1,2)
proof (cases rule: finish_cases)
  case (remaining_failed e s1)
  then show ?thesis
    using store_remaining_tables [OF assms(3)] by (simp add: same_tables_def)
next
  case (status_failed s1 e)
  then show ?thesis
    using store_remaining_tables [OF assms(3)] by (simp add: same_tables_def)
next
  case (update_failed s1 uidnext e)
  have "uidnext_ok srv"
    using update_failed(2)
    by (auto simp: get_uidnext_def uidnext_ok_def Let_def split: reply.splits option.splits
        if_splits)
  then show ?thesis
    using update_failed store_remaining_tables [OF assms(3)] by (simp add: same_tables_def)
next
  case (completed s1 uidnext)
  have "uidnext_ok srv"
    using completed(2)
    by (auto simp: get_uidnext_def uidnext_ok_def Let_def split: reply.splits option.splits
        if_splits)
  moreover have "sync_state (in_txn (fstore s1)) = Some row"
    using completed(1) store_remaining_tables [OF assms(3)] assms(4)
    by (simp add: same_tables_def)
  ultimately show ?thesis
    using completed(3,4)
    by (auto simp: update_sync_state_def get_sync_state_def commit_def split: if_splits)
qed

lemma list_uids_failed_iff:
  "(\<exists>e. fst (list_uids srv incremental d c) = Inl e) \<longleftrightarrow> \<not> search_ok srv"
  by (auto simp: list_uids_def search_since_uid_def search_all_def search_ok_def Let_def
      split: reply.splits option.splits)

lemma fetch_all_block_cursor:
  assumes "fetch_all_block L srv batch_size incremental (get_connection d) c = (r, k1, c1)"
    and "sync_state d = Some row"
  shows "(\<forall>st. r = Inr st \<and> enumerated srv incremental d \<noteq> [] \<longrightarrow>
            last_uid (get_sync_state (on_disk k1)) = Max (set (enumerated srv incremental d)))
       \<and> (\<forall>st. r = Inr st \<and> enumerated srv incremental d = [] \<longrightarrow> on_disk k1 = d)
       \<and> (\<forall>e. r = Inl e \<longrightarrow> sync_state (on_disk k1) = sync_state d)
       \<and> (\<not> search_ok srv \<longrightarrow> (\<exists>e. r = Inl e))
       \<and> (0 < batch_size
            \<and> (\<exists>b\<in>set (batches_of (enumerated srv incremental d) (nat batch_size)).
                  \<not> fetch_ok srv b)
          \<longrightarrow> (\<exists>e. r = Inl e))
       \<and> (enumerated srv incremental d \<noteq> [] \<and> \<not> uidnext_ok srv \<longrightarrow> (\<exists>e. r = Inl e))"
proof -
  let ?k = "get_connection d"
  let ?E = "enumerated srv incremental d"
  have k: "in_txn ?k = d" "on_disk ?k = d" by (simp_all add: get_connection_def)
  have t0: "same_tables ?k d" by (rule same_tables_get_connection)
  have nobatch: "batches_of [] (nat batch_size) = []"
    by (simp add: batches_of_def range_from.simps)
  from assms(1) show ?thesis
  proof (cases rule: fetch_all_block_cases)
    case (list_failed e)
    then have "?E = []" using enumerated_failed [of srv incremental d c e c1] by (simp add: k)
    then show ?thesis using list_failed by (simp add: k nobatch)
  next
    case (none_listed listed)
    have "search_ok srv"
      using none_listed(1) list_uids_failed_iff [of srv incremental d c] by (simp add: k)
    then show ?thesis using none_listed by (simp add: k nobatch)
  next
    case (loop_failed listed c2 e s)
    then show ?thesis
      using fetch_loop_tables [OF loop_failed(3) t0] by (simp add: k same_tables_def)
  next
    case (finished listed c2 s c3)
    have ok: "search_ok srv"
      using finished(1) list_uids_failed_iff [of srv incremental d c] by (simp add: k)
    have ne: "?E \<noteq> []" using finished(2) by (simp add: k)
    have ts: "same_tables (fstore s) d" using fetch_loop_tables [OF finished(3) t0] .
    have fin: "(\<forall>st. r = Inr st \<longrightarrow> last_uid (get_sync_state (on_disk k1)) = Max (set ?E))
       \<and> (\<forall>e. r = Inl e \<longrightarrow> sync_state (on_disk k1) = sync_state d)
       \<and> (\<not> uidnext_ok srv \<longrightarrow> (\<exists>e. r = Inl e))"
      using finish_cursor [OF finished(4) [unfolded k] ne ts assms(2)] .
    have allok: "0 < batch_size \<longrightarrow> (\<forall>b\<in>set (batches_of ?E (nat batch_size)). fetch_ok srv b)"
    proof
      assume pos: "0 < batch_size"
      then have p: "0 < nat batch_size" by simp
      have nonempty: "\<forall>b\<in>set (map (\<lambda>i. py_slice ?E i (i + nat batch_size))
                          (range_from 0 (length ?E) (nat batch_size))). b \<noteq> []"
        using batches_of_nonempty [OF p, of _ ?E] by (simp add: batches_of_def)
      have "fst (for_batches srv ?E (nat batch_size) (range_from 0 (length ?E) (nat batch_size))
                   (loop_body L batch_size) (floop0 ?k) c2) = None"
        using finished(3) pos by (simp add: k fetch_headers_batch_def py_range_def)
      from for_batches_None [OF nonempty this]
      show "\<forall>b\<in>set (batches_of ?E (nat batch_size)). fetch_ok srv b"
        by (simp add: batches_of_def)
    qed
    show ?thesis using fin ok ne allok by auto
  qed
qed

text \<open>
  C1 (as stated, refuted). The server lists 10 and 20; the FETCH for both returns the
  record of 10 only. The run ends normally with one record stored, uid 10, and the cursor
  at 20, a uid for which nothing was stored.
\<close>

theorem cursor_past_unstored_counterexample:
  "fst (fetch_all plain_lib omitting_server True 100 True empty_db)
     = Inr \<lparr>total_fetched = 1, new_stored = 1, already_existed = 0, errors = 0\<rparr>
   \<and> last_uid (get_sync_state (fst (snd (fetch_all plain_lib omitting_server True 100 True
        empty_db)))) = 20
   \<and> emails (fst (snd (fetch_all plain_lib omitting_server True 100 True empty_db))) 20 = None
   \<and> map_option uid (emails (fst (snd (fetch_all plain_lib omitting_server True 100 True
        empty_db))) 10) = Some 10
   \<and> fetch_requests (snd (snd (fetch_all plain_lib omitting_server True 100 True empty_db)))
       = [[10, 20]]"
  by (simp add: fetch_all_def fetch_all_block_def Let_def init_db_def empty_db_def
      connect_def select_all_mail_def send_def new_client_def disconnect_def
      omitting_server_def quiet_server_def plain_lib_def
      list_uids_def search_all_def search_since_uid_def get_sync_state_def
      get_deleted_uids_def fetch_headers_batch_def py_range_def range_from.simps
      py_slice_def fetch_headers_def parse_fetch_response_def floop0_def stats0_def
      loop_body_def parse_headers_def and_then_def decode_header_value_def decode_part_def
      msg_get_def extract_email_address_def parse_date_def falsy_def strip_message_id_def
      finish_def get_connection_def commit_def bind_email_def sqlite_int_def
      store_remaining_def store_batch_def insert_emails_batch_def insert_email_def
      py_max_def get_uidnext_def update_sync_state_def)

text \<open>
  C1 (amended). When a run of \<open>fetch_all\<close> returns its statistics and has enumerated at
  least one uid that is not tombstoned, the cursor is the maximum of the enumerated,
  tombstone-filtered uids, whether or not a record was stored for that uid; when it
  returns having enumerated nothing, the store is as it was after \<open>init_db\<close>; and when
  it ends with an exception the sync state is the one it started with. The run does end
  with an exception when the credentials are missing, when the connection or the listing
  fails, when the FETCH of any batch of the enumerated uids is not answered OK, and when
  uids were enumerated and the UIDNEXT query fails: so a failed fetch batch never
  advances the cursor.
\<close>

theorem cursor_is_max_enumerated:
  assumes "fetch_all L srv credentials batch_size incremental d0 = (r, d1, log)"
  shows "(\<forall>st. r = Inr st \<and> enumerated srv incremental (init_db d0) \<noteq> [] \<longrightarrow>
            last_uid (get_sync_state d1) = Max (set (enumerated srv incremental (init_db d0))))
       \<and> (\<forall>st. r = Inr st \<and> enumerated srv incremental (init_db d0) = [] \<longrightarrow>
            d1 = init_db d0)
       \<and> (\<forall>e. r = Inl e \<longrightarrow> sync_state d1 = sync_state (init_db d0))
       \<and> (\<not> credentials \<or> (\<exists>e c. connect srv new_client = (Inl e, c)) \<or> \<not> search_ok srv
            \<longrightarrow> (\<exists>e. r = Inl e))
       \<and> (0 < batch_size
            \<and> (\<exists>b\<in>set (batches_of (enumerated srv incremental (init_db d0)) (nat batch_size)).
                  \<not> fetch_ok srv b)
          \<longrightarrow> (\<exists>e. r = Inl e))
       \<and> (enumerated srv incremental (init_db d0) \<noteq> [] \<and> \<not> uidnext_ok srv
            \<longrightarrow> (\<exists>e. r = Inl e))"
  using assms
proof (cases rule: fetch_all_cases)
  case no_credentials
  then show ?thesis by simp
next
  case (no_connection e c)
  then show ?thesis by simp
next
  case (block c k1 c1)
  obtain row where "sync_state (init_db d0) = Some row"
    using init_db_row by blast
  then show ?thesis using fetch_all_block_cursor [OF block(3)] block(1,2,4) by simp
qed

theorem cursor_is_max_enumerated_witness:
  "fst (fetch_all plain_lib three_mail_server True 2 True empty_db)
     = Inr \<lparr>total_fetched = 3, new_stored = 3, already_existed = 0, errors = 0\<rparr>
   \<and> enumerated three_mail_server True (init_db empty_db) = [10, 20, 30]
   \<and> last_uid (get_sync_state (fst (snd (fetch_all plain_lib three_mail_server True 2 True
        empty_db)))) = 30"
proof -
  have run: "fst (fetch_all plain_lib three_mail_server True 2 True empty_db)
     = Inr \<lparr>total_fetched = 3, new_stored = 3, already_existed = 0, errors = 0\<rparr>"
    by (simp add: fetch_all_def fetch_all_block_def Let_def init_db_def empty_db_def
      connect_def select_all_mail_def send_def new_client_def disconnect_def
      three_mail_server_def quiet_server_def plain_lib_def
      list_uids_def search_all_def search_since_uid_def get_sync_state_def
      get_deleted_uids_def fetch_headers_batch_def py_range_def range_from.simps
      py_slice_def fetch_headers_def parse_fetch_response_def floop0_def stats0_def
      loop_body_def parse_headers_def and_then_def decode_header_value_def decode_part_def
      msg_get_def extract_email_address_def parse_date_def falsy_def strip_message_id_def
      finish_def get_connection_def commit_def bind_email_def sqlite_int_def
      store_remaining_def store_batch_def insert_emails_batch_def insert_email_def
      py_max_def get_uidnext_def update_sync_state_def)
  have en: "enumerated three_mail_server True (init_db empty_db) = [10, 20, 30]"
    by (simp add: enumerated_def list_uids_def search_all_def search_since_uid_def
        get_sync_state_def get_deleted_uids_def init_db_def empty_db_def send_def
        new_client_def three_mail_server_def quiet_server_def Let_def)
  have "fetch_all plain_lib three_mail_server True 2 True empty_db
          = (fst (fetch_all plain_lib three_mail_server True 2 True empty_db),
             fst (snd (fetch_all plain_lib three_mail_server True 2 True empty_db)),
             snd (snd (fetch_all plain_lib three_mail_server True 2 True empty_db)))"
    by simp
  from cursor_is_max_enumerated [OF this] run en
  have "last_uid (get_sync_state (fst (snd (fetch_all plain_lib three_mail_server True 2 True
        empty_db)))) = 30"
    by simp
  then show ?thesis using run en by simp
qed

section \<open>Running the fetcher again\<close>

lemma insert_email_on_disk: "on_disk (snd (insert_email k e)) = on_disk k"
  by (simp add: insert_email_def split: option.splits)

lemma insert_loop_on_disk: "on_disk (snd (insert_loop k es n)) = on_disk k"
proof (induction es arbitrary: k n)
  case Nil
  then show ?case by simp
next
  case (Cons e es)
  obtain b k' where i: "insert_email k e = (b, k')" by (cases "insert_email k e")
  then have d: "on_disk k' = on_disk k" using insert_email_on_disk [of k e] by simp
  show ?case
  proof (cases b)
    case (Inl err)
    then show ?thesis using i d by simp
  next
    case (Inr x)
    then show ?thesis using i d Cons.IH [of k'] by (cases x) simp_all
  qed
qed

lemma insert_email_schema: "schema (in_txn (snd (insert_email k e))) = schema (in_txn k)"
  by (simp add: insert_email_def split: option.splits)

lemma insert_loop_schema: "schema (in_txn (snd (insert_loop k es n))) = schema (in_txn k)"
proof (induction es arbitrary: k n)
  case Nil
  then show ?case by simp
next
  case (Cons e es)
  obtain b k' where i: "insert_email k e = (b, k')" by (cases "insert_email k e")
  then have d: "schema (in_txn k') = schema (in_txn k)" using insert_email_schema [of k e] by simp
  show ?case
  proof (cases b)
    case (Inl err)
    then show ?thesis using i d by simp
  next
    case (Inr x)
    then show ?thesis using i d Cons.IH [of k'] by (cases x) simp_all
  qed
qed

lemma insert_email_dom_mono:
  "dom (emails (in_txn k)) \<subseteq> dom (emails (in_txn (snd (insert_email k e))))"
  by (auto simp: insert_email_def split: option.splits)

lemma insert_loop_dom_mono:
  "dom (emails (in_txn k)) \<subseteq> dom (emails (in_txn (snd (insert_loop k es n))))"
proof (induction es arbitrary: k n)
  case Nil
  then show ?case by simp
next
  case (Cons e es)
  obtain b k' where i: "insert_email k e = (b, k')" by (cases "insert_email k e")
  then have d: "dom (emails (in_txn k)) \<subseteq> dom (emails (in_txn k'))"
    using insert_email_dom_mono [of k e] by simp
  show ?case
  proof (cases b)
    case (Inl err)
    then show ?thesis using i d by simp
  next
    case (Inr x)
    have "dom (emails (in_txn k)) \<subseteq> dom (emails (in_txn (snd (insert_loop k' es m))))" for m
      using d Cons.IH [of k' m] by (rule subset_trans)
    then show ?thesis using i Inr by (cases x) simp_all
  qed
qed

text \<open>An insert loop that returns had only records that can be bound, and stored them all.\<close>

lemma insert_loop_Inr:
  "insert_loop k es n = (Inr m, k1) \<Longrightarrow>
   list_all (\<lambda>e. bind_email e = None) es
   \<and> dom (emails (in_txn k1)) = dom (emails (in_txn k)) \<union> uid ` set es"
proof (induction es arbitrary: k n)
  case Nil
  then show ?case by simp
next
  case (Cons e es)
  show ?case
  proof (cases "schema (in_txn k)")
    case False
    then show ?thesis using Cons.prems by (simp add: insert_email_no_tables)
  next
    case sch: True
    show ?thesis
    proof (cases "bind_email e")
      case (Some err)
      then show ?thesis using Cons.prems sch by (simp add: insert_email_unbound)
    next
      case None
      show ?thesis
      proof (cases "emails (in_txn k) (uid e) = None")
        case True
        let ?k = "k\<lparr>in_txn := (in_txn k)\<lparr>emails := (emails (in_txn k))(uid e \<mapsto> e)\<rparr>\<rparr>"
        have "insert_loop ?k es (n + 1) = (Inr m, k1)"
          using Cons.prems None True sch by (simp add: insert_email_absent)
        from Cons.IH [OF this] show ?thesis using None by auto
      next
        case False
        then have "insert_loop k es n = (Inr m, k1)"
          using Cons.prems None sch by (simp add: insert_email_present)
        from Cons.IH [OF this] show ?thesis using None False by auto
      qed
    qed
  qed
qed

lemma insert_loop_noop:
  "schema (in_txn k) \<Longrightarrow> list_all (\<lambda>e. bind_email e = None) es \<Longrightarrow>
   uid ` set es \<subseteq> dom (emails (in_txn k)) \<Longrightarrow>
   insert_loop k es n = (Inr n, k)"
proof (induction es)
  case Nil
  then show ?case by simp
next
  case (Cons e es)
  then have "bind_email e = None" "emails (in_txn k) (uid e) \<noteq> None" by auto
  with Cons.prems(1) have "insert_email k e = (Inr False, k)" by (rule insert_email_present)
  then show ?case using Cons by simp
qed

text \<open>
  The exception of an insert loop depends on the records only, on connections to files
  whose tables exist.
\<close>

lemma insert_loop_Inl:
  "schema (in_txn k) \<Longrightarrow> schema (in_txn k') \<Longrightarrow>
   fst (insert_loop k es n) = Inl err \<Longrightarrow> fst (insert_loop k' es n') = Inl err"
proof (induction es arbitrary: k k' n n')
  case Nil
  then show ?case by simp
next
  case (Cons e es)
  show ?case
  proof (cases "bind_email e")
    case (Some err')
    then show ?thesis using Cons.prems by (simp add: insert_email_unbound)
  next
    case None
    obtain b k1 where i: "insert_email k e = (Inr b, k1)"
      using None Cons.prems(1)
      by (cases "emails (in_txn k) (uid e) = None") (auto simp: insert_email_def)
    obtain b' k1' where i': "insert_email k' e = (Inr b', k1')"
      using None Cons.prems(2)
      by (cases "emails (in_txn k') (uid e) = None") (auto simp: insert_email_def)
    have s1: "schema (in_txn k1)" "schema (in_txn k1')"
      using insert_email_schema [of k e] insert_email_schema [of k' e] i i' Cons.prems(1,2)
      by simp_all
    obtain m where "fst (insert_loop k1 es m) = Inl err"
      using Cons.prems(3) i by (cases b) auto
    from Cons.IH [OF s1 this] show ?thesis using i' by (cases b') simp_all
  qed
qed

lemma commit_clean: "clean k \<Longrightarrow> commit k = k"
  by (cases k) (simp add: clean_def commit_def)

lemma clean_commit: "clean (commit k)"
  by (simp add: clean_def commit_def)

lemma clean_get_connection: "clean (get_connection d)"
  by (simp add: clean_def get_connection_def)

lemma clean_grown: "clean k \<Longrightarrow> grown k"
  by (simp add: clean_def grown_def)

text \<open>Storing a batch, in the first run.\<close>

lemma store_batch_pending:
  "batch_emails (snd (store_batch s)) = batch_emails s
   \<and> fetched (snd (store_batch s)) = fetched s"
  by (simp add: store_batch_def split: prod.splits sum.splits)

lemma store_batch_None:
  assumes "fst (store_batch s) = None"
  shows "list_all (\<lambda>e. bind_email e = None) (batch_emails s)"
    and "uid ` set (batch_emails s) \<subseteq> dom (emails (on_disk (fstore (snd (store_batch s)))))"
    and "clean (fstore (snd (store_batch s)))"
proof -
  obtain r k1 where i: "insert_loop (fstore s) (batch_emails s) 0 = (r, k1)"
    by (cases "insert_loop (fstore s) (batch_emails s) 0")
  obtain m where m: "r = Inr m"
    using assms i by (cases r) (simp_all add: store_batch_def insert_emails_batch_def)
  have st: "fstore (snd (store_batch s)) = commit k1"
    using i m by (simp add: store_batch_def insert_emails_batch_def)
  show "list_all (\<lambda>e. bind_email e = None) (batch_emails s)"
    using insert_loop_Inr [OF i [unfolded m]] by simp
  show "uid ` set (batch_emails s) \<subseteq> dom (emails (on_disk (fstore (snd (store_batch s)))))"
    using insert_loop_Inr [OF i [unfolded m]] by (auto simp: st commit_def)
  show "clean (fstore (snd (store_batch s)))" by (simp add: st clean_commit)
qed

lemma store_batch_grown:
  assumes "grown (fstore s)"
  shows "grown (fstore (snd (store_batch s)))"
    and "dom (emails (on_disk (fstore s)))
           \<subseteq> dom (emails (on_disk (fstore (snd (store_batch s)))))"
proof -
  obtain r k1 where i: "insert_loop (fstore s) (batch_emails s) 0 = (r, k1)"
    by (cases "insert_loop (fstore s) (batch_emails s) 0")
  have disk: "on_disk k1 = on_disk (fstore s)"
    using insert_loop_on_disk [of "fstore s" "batch_emails s" 0] i by simp
  have mono: "dom (emails (in_txn (fstore s))) \<subseteq> dom (emails (in_txn k1))"
    using insert_loop_dom_mono [of "fstore s" "batch_emails s" 0] i by simp
  have st: "fstore (snd (store_batch s)) = (case r of Inl e \<Rightarrow> k1 | Inr m \<Rightarrow> commit k1)"
    using i by (simp add: store_batch_def insert_emails_batch_def split: sum.splits)
  show "grown (fstore (snd (store_batch s)))"
    using assms disk mono by (auto simp: st grown_def commit_def split: sum.splits)
  show "dom (emails (on_disk (fstore s)))
           \<subseteq> dom (emails (on_disk (fstore (snd (store_batch s)))))"
    using assms disk mono by (auto simp: st grown_def commit_def split: sum.splits)
qed

text \<open>
  Storing the same pending records again, on a connection with nothing uncommitted whose
  file has the rows that the first store left there: the same exception, or no change.
\<close>

lemma store_batch_schema:
  "schema (in_txn (fstore (snd (store_batch s)))) = schema (in_txn (fstore s))"
  using insert_loop_schema [of "fstore s" "batch_emails s" 0]
  by (auto simp: store_batch_def insert_emails_batch_def commit_def
      split: prod.splits sum.splits)

lemma store_batch_rerun:
  assumes "batch_emails t = batch_emails s" and "clean (fstore t)"
    and "fst (store_batch s) = None \<longrightarrow>
           uid ` set (batch_emails s) \<subseteq> dom (emails (in_txn (fstore t)))"
    and "schema (in_txn (fstore s))" and "schema (in_txn (fstore t))"
  shows "fst (store_batch t) = fst (store_batch s)"
    and "on_disk (fstore (snd (store_batch t))) = on_disk (fstore t)"
    and "fst (store_batch s) = None \<longrightarrow>
           fstore (snd (store_batch t)) = fstore t
           \<and> new_stored (fstats (snd (store_batch t))) = new_stored (fstats t)"
proof -
  obtain r k1 where i: "insert_loop (fstore s) (batch_emails s) 0 = (r, k1)"
    by (cases "insert_loop (fstore s) (batch_emails s) 0")
  obtain r' k1' where i': "insert_loop (fstore t) (batch_emails s) 0 = (r', k1')"
    by (cases "insert_loop (fstore t) (batch_emails s) 0")
  have disk: "on_disk k1' = on_disk (fstore t)"
    using insert_loop_on_disk [of "fstore t" "batch_emails s" 0] i' by simp
  have both: "fst (store_batch t) = fst (store_batch s)
    \<and> on_disk (fstore (snd (store_batch t))) = on_disk (fstore t)
    \<and> (fst (store_batch s) = None \<longrightarrow>
           fstore (snd (store_batch t)) = fstore t
           \<and> new_stored (fstats (snd (store_batch t))) = new_stored (fstats t))"
  proof (cases r)
    case (Inl err)
    then have "fst (insert_loop (fstore s) (batch_emails s) 0) = Inl err" using i by simp
    with assms(4,5) have "fst (insert_loop (fstore t) (batch_emails s) 0) = Inl err"
      by (rule insert_loop_Inl)
    then have "r' = Inl err" using i' by simp
    then show ?thesis
      using i i' Inl disk assms(1) by (simp add: store_batch_def insert_emails_batch_def)
  next
    case (Inr m)
    then have ok: "fst (store_batch s) = None"
      using i by (simp add: store_batch_def insert_emails_batch_def)
    have "list_all (\<lambda>e. bind_email e = None) (batch_emails s)"
      using ok by (rule store_batch_None(1))
    moreover have "uid ` set (batch_emails s) \<subseteq> dom (emails (in_txn (fstore t)))"
      using assms(3) ok by simp
    ultimately have "insert_loop (fstore t) (batch_emails s) 0 = (Inr 0, fstore t)"
      using assms(5) by (intro insert_loop_noop)
    then show ?thesis
      using ok assms(1) commit_clean [OF assms(2)]
      by (simp add: store_batch_def insert_emails_batch_def)
  qed
  show "fst (store_batch t) = fst (store_batch s)" using both by simp
  show "on_disk (fstore (snd (store_batch t))) = on_disk (fstore t)" using both by simp
  show "fst (store_batch s) = None \<longrightarrow>
           fstore (snd (store_batch t)) = fstore t
           \<and> new_stored (fstats (snd (store_batch t))) = new_stored (fstats t)"
    using both by simp
qed

lemma parse_items_pending:
  "batch_emails t = batch_emails s \<Longrightarrow> fetched t = fetched s \<Longrightarrow>
   batch_emails (parse_items L b t) = batch_emails (parse_items L b s)
   \<and> fetched (parse_items L b t) = fetched (parse_items L b s)"
proof (induction b arbitrary: s t)
  case Nil
  then show ?case by simp
next
  case (Cons p b)
  obtain u data where p: "p = (u, data)" by (cases p)
  show ?case
  proof (cases "parse_headers L (headers data) (size_val data) u")
    case (Inl e)
    then show ?thesis
      using p Cons.prems
        Cons.IH [of "t\<lparr>fstats := (fstats t)\<lparr>errors := errors (fstats t) + 1\<rparr>\<rparr>"
                    "s\<lparr>fstats := (fstats s)\<lparr>errors := errors (fstats s) + 1\<rparr>\<rparr>"]
      by simp
  next
    case (Inr rec)
    then show ?thesis
      using p Cons.prems
        Cons.IH [of "t\<lparr>batch_emails := batch_emails t @ [rec], fetched := fetched t + 1\<rparr>"
                    "s\<lparr>batch_emails := batch_emails s @ [rec], fetched := fetched s + 1\<rparr>"]
      by simp
  qed
qed

lemma parse_items_new_stored:
  "new_stored (fstats (parse_items L b s)) = new_stored (fstats s)"
  by (induction L b s rule: parse_items.induct) (simp_all split: sum.splits)

lemma loop_body_unfold:
  "loop_body L batch_size s b =
     (if batch_size \<le> int (length (batch_emails (parse_items L b s)))
      then (fst (store_batch (parse_items L b s)),
            if fst (store_batch (parse_items L b s)) = None
            then (snd (store_batch (parse_items L b s)))\<lparr>batch_emails := []\<rparr>
            else snd (store_batch (parse_items L b s)))
      else (None, parse_items L b s))"
  by (cases "store_batch (parse_items L b s)"; cases "fst (store_batch (parse_items L b s))")
    (simp_all add: loop_body_def Let_def)

lemma loop_body_grown:
  assumes "grown (fstore s)"
  shows "grown (fstore (snd (loop_body L batch_size s b)))
       \<and> dom (emails (on_disk (fstore s)))
           \<subseteq> dom (emails (on_disk (fstore (snd (loop_body L batch_size s b)))))"
proof -
  have "grown (fstore (parse_items L b s))" using assms by (simp add: parse_items_fstore)
  from store_batch_grown [OF this] assms show ?thesis
    by (simp add: loop_body_unfold parse_items_fstore)
qed

lemma store_remaining_grown:
  assumes "grown (fstore s)"
  shows "grown (fstore (snd (store_remaining s)))
       \<and> dom (emails (on_disk (fstore s)))
           \<subseteq> dom (emails (on_disk (fstore (snd (store_remaining s)))))"
  using store_batch_grown [OF assms] assms by (simp add: store_remaining_def)

lemma for_batches_grown:
  assumes "for_batches srv uids bs starts (loop_body L batch_size) s c = (fe, s1, c1)"
    and "grown (fstore s)"
  shows "grown (fstore s1)
       \<and> dom (emails (on_disk (fstore s))) \<subseteq> dom (emails (on_disk (fstore s1)))"
proof -
  let ?P = "\<lambda>x. grown (fstore x)
                \<and> dom (emails (on_disk (fstore s))) \<subseteq> dom (emails (on_disk (fstore x)))"
  have "?P s" using assms(2) by simp
  moreover have "\<And>x b. ?P x \<Longrightarrow> ?P (snd (loop_body L batch_size x b))"
    using loop_body_grown by blast
  ultimately have "?P (fst (snd (for_batches srv uids bs starts (loop_body L batch_size) s c)))"
    by (rule for_batches_invariant)
  then show ?thesis using assms(1) by simp
qed

text \<open>
  One turn of the loop again, on a connection with nothing uncommitted whose file has the
  rows that the first turn left there: it raises what the first turn raised, or changes
  nothing in the store.
\<close>

lemma loop_body_schema:
  "schema (in_txn (fstore (snd (loop_body L batch_size s b)))) = schema (in_txn (fstore s))"
  using store_batch_schema [of "parse_items L b s"]
  by (simp add: loop_body_unfold parse_items_fstore)

lemma loop_body_rerun:
  assumes "batch_emails t = batch_emails s" and "fetched t = fetched s"
    and "clean (fstore t)"
    and "dom (emails (on_disk (fstore (snd (loop_body L batch_size s b)))))
           \<subseteq> dom (emails (on_disk (fstore t)))"
    and "schema (in_txn (fstore s))" and "schema (in_txn (fstore t))"
  shows "fst (loop_body L batch_size t b) = fst (loop_body L batch_size s b)
       \<and> on_disk (fstore (snd (loop_body L batch_size t b))) = on_disk (fstore t)
       \<and> (fst (loop_body L batch_size s b) = None \<longrightarrow>
            fstore (snd (loop_body L batch_size t b)) = fstore t
            \<and> batch_emails (snd (loop_body L batch_size t b))
                = batch_emails (snd (loop_body L batch_size s b))
            \<and> fetched (snd (loop_body L batch_size t b))
                = fetched (snd (loop_body L batch_size s b))
            \<and> new_stored (fstats (snd (loop_body L batch_size t b))) = new_stored (fstats t))"
proof -
  let ?s1 = "parse_items L b s" and ?t1 = "parse_items L b t"
  have pend: "batch_emails ?t1 = batch_emails ?s1" "fetched ?t1 = fetched ?s1"
    using parse_items_pending [OF assms(1,2), of L b] by simp_all
  have cl: "clean (fstore ?t1)" using assms(3) by (simp add: parse_items_fstore)
  show ?thesis
  proof (cases "batch_size \<le> int (length (batch_emails ?s1))")
    case True
    have there: "fst (store_batch ?s1) = None \<longrightarrow>
           uid ` set (batch_emails ?s1) \<subseteq> dom (emails (in_txn (fstore ?t1)))"
    proof
      assume ok: "fst (store_batch ?s1) = None"
      have "uid ` set (batch_emails ?s1)
              \<subseteq> dom (emails (on_disk (fstore (snd (store_batch ?s1)))))"
        using ok by (rule store_batch_None(2))
      also have "\<dots> \<subseteq> dom (emails (on_disk (fstore t)))"
        using assms(4) True ok by (simp add: loop_body_unfold)
      finally show "uid ` set (batch_emails ?s1) \<subseteq> dom (emails (in_txn (fstore ?t1)))"
        using assms(3) by (simp add: parse_items_fstore clean_def)
    qed
    have sch: "schema (in_txn (fstore ?s1))" "schema (in_txn (fstore ?t1))"
      using assms(5,6) by (simp_all add: parse_items_fstore)
    note again = store_batch_rerun [OF pend(1) cl there sch]
    show ?thesis
      using True pend again store_batch_pending [of ?s1] store_batch_pending [of ?t1]
      by (simp add: loop_body_unfold parse_items_fstore parse_items_new_stored)
  next
    case False
    then show ?thesis
      using pend
      by (simp add: loop_body_unfold parse_items_fstore parse_items_new_stored)
  qed
qed

lemma store_remaining_rerun:
  assumes "batch_emails t = batch_emails s" and "fetched t = fetched s"
    and "clean (fstore t)"
    and "dom (emails (on_disk (fstore (snd (store_remaining s)))))
           \<subseteq> dom (emails (on_disk (fstore t)))"
    and "schema (in_txn (fstore s))" and "schema (in_txn (fstore t))"
  shows "fst (store_remaining t) = fst (store_remaining s)
       \<and> on_disk (fstore (snd (store_remaining t))) = on_disk (fstore t)
       \<and> (fst (store_remaining s) = None \<longrightarrow>
            fstore (snd (store_remaining t)) = fstore t
            \<and> fetched (snd (store_remaining t)) = fetched (snd (store_remaining s))
            \<and> new_stored (fstats (snd (store_remaining t))) = new_stored (fstats t))"
proof (cases "batch_emails s = []")
  case True
  then show ?thesis using assms by (simp add: store_remaining_def)
next
  case False
  have there: "fst (store_batch s) = None \<longrightarrow>
         uid ` set (batch_emails s) \<subseteq> dom (emails (in_txn (fstore t)))"
  proof
    assume ok: "fst (store_batch s) = None"
    have "uid ` set (batch_emails s) \<subseteq> dom (emails (on_disk (fstore (snd (store_batch s)))))"
      using ok by (rule store_batch_None(2))
    also have "\<dots> \<subseteq> dom (emails (on_disk (fstore t)))"
      using assms(4) False by (simp add: store_remaining_def)
    finally show "uid ` set (batch_emails s) \<subseteq> dom (emails (in_txn (fstore t)))"
      using assms(3) by (simp add: clean_def)
  qed
  note again = store_batch_rerun [OF assms(1,3) there assms(5,6)]
  show ?thesis
    using False assms(1,2) again store_batch_pending [of s] store_batch_pending [of t]
    by (simp add: store_remaining_def)
qed

lemma for_batches_rerun:
  assumes "for_batches srv uids bs starts (loop_body L batch_size) s c = (fe, s1, c1)"
    and "batch_emails t = batch_emails s" and "fetched t = fetched s"
    and "clean (fstore t)" and "grown (fstore s)"
    and "dom (emails (on_disk (fstore s1))) \<subseteq> dom (emails (on_disk (fstore t)))"
    and "schema (in_txn (fstore s))" and "schema (in_txn (fstore t))"
  shows "\<exists>t1. for_batches srv uids bs starts (loop_body L batch_size) t c = (fe, t1, c1)
            \<and> on_disk (fstore t1) = on_disk (fstore t)
            \<and> (fe = None \<longrightarrow>
                 fstore t1 = fstore t
                 \<and> batch_emails t1 = batch_emails s1 \<and> fetched t1 = fetched s1
                 \<and> new_stored (fstats t1) = new_stored (fstats t))"
  using assms
proof (induction starts arbitrary: s t c)
  case Nil
  then show ?case by simp
next
  case (Cons i starts)
  let ?b = "py_slice uids i (i + bs)"
  obtain r c2 where f: "fetch_headers srv ?b c = (r, c2)" by (cases "fetch_headers srv ?b c")
  show ?case
  proof (cases r)
    case (Inl e)
    then show ?thesis using f Cons.prems by auto
  next
    case (Inr bd)
    obtain r1 s2 where b1: "loop_body L batch_size s bd = (r1, s2)"
      by (cases "loop_body L batch_size s bd")
    obtain r2 t2 where b2: "loop_body L batch_size t bd = (r2, t2)"
      by (cases "loop_body L batch_size t bd")
    have g2: "grown (fstore s2)"
      using loop_body_grown [OF Cons.prems(5), of L batch_size bd] b1 by simp
    show ?thesis
    proof (cases r1)
      case (Some e)
      then have fin: "fe = Some e" "s1 = s2" "c1 = c2"
        using Cons.prems(1) f Inr b1 by simp_all
      have sub: "dom (emails (on_disk (fstore (snd (loop_body L batch_size s bd)))))
                   \<subseteq> dom (emails (on_disk (fstore t)))"
        using Cons.prems(6) fin b1 by simp
      have "r2 = Some e \<and> on_disk (fstore t2) = on_disk (fstore t)"
        using loop_body_rerun [OF Cons.prems(2,3,4) sub Cons.prems(7,8)] b1 b2 Some by simp
      then show ?thesis using f Inr b2 fin by simp
    next
      case None
      then have rest: "for_batches srv uids bs starts (loop_body L batch_size) s2 c2
                         = (fe, s1, c1)"
        using Cons.prems(1) f Inr b1 by simp
      have "dom (emails (on_disk (fstore s2))) \<subseteq> dom (emails (on_disk (fstore s1)))"
        using for_batches_grown [OF rest g2] by simp
      then have sub: "dom (emails (on_disk (fstore (snd (loop_body L batch_size s bd)))))
                   \<subseteq> dom (emails (on_disk (fstore t)))"
        using Cons.prems(6) b1 by auto
      have step: "r2 = None" "fstore t2 = fstore t"
        "batch_emails t2 = batch_emails s2" "fetched t2 = fetched s2"
        "new_stored (fstats t2) = new_stored (fstats t)"
        using loop_body_rerun [OF Cons.prems(2,3,4) sub Cons.prems(7,8)] b1 b2 None by simp_all
      have cl2: "clean (fstore t2)" using step(2) Cons.prems(4) by simp
      have sch2: "schema (in_txn (fstore s2))" "schema (in_txn (fstore t2))"
        using loop_body_schema [of L batch_size s bd] b1 Cons.prems(7,8) step(2) by simp_all
      have sub2: "dom (emails (on_disk (fstore s1))) \<subseteq> dom (emails (on_disk (fstore t2)))"
        using Cons.prems(6) step(2) by simp
      have "\<exists>t1. for_batches srv uids bs starts (loop_body L batch_size) t2 c2 = (fe, t1, c1)
            \<and> on_disk (fstore t1) = on_disk (fstore t2)
            \<and> (fe = None \<longrightarrow>
                 fstore t1 = fstore t2
                 \<and> batch_emails t1 = batch_emails s1 \<and> fetched t1 = fetched s1
                 \<and> new_stored (fstats t1) = new_stored (fstats t2))"
        using Cons.IH [OF rest step(3,4) cl2 g2 sub2 sch2] .
      then show ?thesis using f Inr b2 step by simp
    qed
  qed
qed

lemma fetch_headers_batch_rerun:
  assumes "fetch_headers_batch srv uids batch_size (loop_body L batch_size) s c = (fe, s1, c1)"
    and "batch_emails t = batch_emails s" and "fetched t = fetched s"
    and "clean (fstore t)" and "grown (fstore s)"
    and "dom (emails (on_disk (fstore s1))) \<subseteq> dom (emails (on_disk (fstore t)))"
    and "schema (in_txn (fstore s))" and "schema (in_txn (fstore t))"
  shows "\<exists>t1. fetch_headers_batch srv uids batch_size (loop_body L batch_size) t c = (fe, t1, c1)
            \<and> on_disk (fstore t1) = on_disk (fstore t)
            \<and> (fe = None \<longrightarrow>
                 fstore t1 = fstore t
                 \<and> batch_emails t1 = batch_emails s1 \<and> fetched t1 = fetched s1
                 \<and> new_stored (fstats t1) = new_stored (fstats t))"
proof (cases "py_range (length uids) batch_size")
  case (Inl e)
  then show ?thesis using assms by (auto simp: fetch_headers_batch_def)
next
  case (Inr starts)
  then have "for_batches srv uids (nat batch_size) starts (loop_body L batch_size) s c
               = (fe, s1, c1)"
    using assms(1) by (simp add: fetch_headers_batch_def)
  from for_batches_rerun [OF this assms(2,3,4,5,6,7,8)] show ?thesis
    using Inr by (simp add: fetch_headers_batch_def)
qed

lemma list_uids_search:
  "list_uids srv incremental d c =
     (case search_all srv c of
        (Inl e, c1) \<Rightarrow> (Inl e, c1)
      | (Inr listing, c1) \<Rightarrow>
          (Inr (if incremental \<and> last_uid (get_sync_state d) > 0
                then filter (\<lambda>u. u > last_uid (get_sync_state d)) listing else listing), c1))"
  by (simp add: list_uids_def search_since_uid_def Let_def split: prod.splits sum.splits)

lemma list_uids_Inr:
  assumes "list_uids srv incremental d c = (Inr listed, c1)"
  obtains listing where "search_all srv c = (Inr listing, c1)"
  using assms unfolding list_uids_search
  by (cases "search_all srv c"; cases "fst (search_all srv c)") auto

lemma enumerated_search:
  assumes "search_all srv c = (Inr listing, c1)"
  shows "enumerated srv incremental d
           = filter (\<lambda>u. u \<notin> deleted_uids d)
               (if incremental \<and> last_uid (get_sync_state d) > 0
                then filter (\<lambda>u. u > last_uid (get_sync_state d)) listing else listing)"
proof -
  have "list_uids srv incremental d c
          = (Inr (if incremental \<and> last_uid (get_sync_state d) > 0
                  then filter (\<lambda>u. u > last_uid (get_sync_state d)) listing else listing), c1)"
    using assms by (simp add: list_uids_search)
  from enumerated_eq [OF this] show ?thesis by (simp add: get_deleted_uids_def)
qed

text \<open>
  Listing again with the cursor at the maximum of what was listed before gives nothing
  in incremental mode from a positive cursor, and the same list otherwise.
\<close>

lemma relist:
  fixes listing :: "int list"
  assumes "uids = filter (\<lambda>u. u \<notin> del)
                    (if incremental \<and> last0 > 0 then filter (\<lambda>u. u > last0) listing
                     else listing)"
    and "uids \<noteq> []"
  shows "filter (\<lambda>u. u \<notin> del)
           (if incremental \<and> Max (set uids) > 0
            then filter (\<lambda>u. u > Max (set uids)) listing else listing) = []
       \<or> filter (\<lambda>u. u \<notin> del)
           (if incremental \<and> Max (set uids) > 0
            then filter (\<lambda>u. u > Max (set uids)) listing else listing) = uids"
proof (cases "incremental \<and> Max (set uids) > 0")
  case True
  have mem: "Max (set uids) \<in> set uids" using assms(2) by simp
  have "\<not> (u \<in> set listing \<and> u > Max (set uids) \<and> u \<notin> del)" for u
  proof
    assume u: "u \<in> set listing \<and> u > Max (set uids) \<and> u \<notin> del"
    have "last0 > 0 \<longrightarrow> Max (set uids) > last0"
      using mem True by (auto simp: assms(1))
    then have "u \<in> set uids" using u True by (auto simp: assms(1))
    then have "u \<le> Max (set uids)" by simp
    then show False using u by simp
  qed
  then have "filter (\<lambda>u. u \<notin> del) (filter (\<lambda>u. u > Max (set uids)) listing) = []"
    by (auto simp: filter_empty_conv)
  then show ?thesis using True by simp
next
  case False
  have "\<not> (incremental \<and> last0 > 0)"
  proof
    assume a: "incremental \<and> last0 > 0"
    have "Max (set uids) \<in> set uids" using assms(2) by simp
    then have "Max (set uids) > last0" using a by (auto simp: assms(1))
    then show False using a False by simp
  qed
  then show ?thesis using False assms(1) by auto
qed

lemma fetch_all_block_eq:
  assumes "list_uids srv incremental (in_txn k) c = (Inr listed, c2)"
    and "enumerated srv incremental (in_txn k) \<noteq> []"
    and "fetch_headers_batch srv (enumerated srv incremental (in_txn k)) batch_size
           (loop_body L batch_size) (floop0 k) c2 = (fe, s, c3)"
  shows "fetch_all_block L srv batch_size incremental k c =
        (case fe of
           Some e \<Rightarrow> (Inl e, fstore s, c3)
         | None \<Rightarrow> finish srv (enumerated srv incremental (in_txn k)) s c3)"
proof -
  note en = enumerated_eq [OF assms(1)]
  have ne: "filter (\<lambda>u. u \<notin> get_deleted_uids (in_txn k)) listed \<noteq> []"
    using assms(2) en by simp
  have f': "fetch_headers_batch srv (filter (\<lambda>u. u \<notin> get_deleted_uids (in_txn k)) listed)
           batch_size (loop_body L batch_size) (floop0 k) c2 = (fe, s, c3)"
    using assms(3) by (simp add: en)
  show ?thesis
    unfolding fetch_all_block_def assms(1)
    by (simp add: Let_def ne f' en split: option.splits)
qed

lemma fetch_all_block_empty:
  assumes "list_uids srv incremental (in_txn k) c = (Inr listed, c2)"
    and "enumerated srv incremental (in_txn k) = []"
  shows "fetch_all_block L srv batch_size incremental k c = (Inr stats0, k, c2)"
proof -
  have "filter (\<lambda>u. u \<notin> get_deleted_uids (in_txn k)) listed = []"
    using assms(2) enumerated_eq [OF assms(1)] by simp
  then show ?thesis unfolding fetch_all_block_def assms(1) by (simp add: Let_def)
qed

lemma list_uids_same_cursor:
  "last_uid (get_sync_state d') = last_uid (get_sync_state d) \<Longrightarrow>
   list_uids srv incremental d' c = list_uids srv incremental d c"
  by (simp add: list_uids_def)

lemma enumerated_same_tables:
  assumes "sync_state d' = sync_state d" and "deleted_uids d' = deleted_uids d"
  shows "enumerated srv incremental d' = enumerated srv incremental d"
proof -
  have "last_uid (get_sync_state d') = last_uid (get_sync_state d)"
    using assms(1) by (simp add: get_sync_state_def)
  then have l: "list_uids srv incremental d' new_client = list_uids srv incremental d new_client"
    by (rule list_uids_same_cursor)
  have g: "get_deleted_uids d' = get_deleted_uids d"
    using assms(2) by (simp add: get_deleted_uids_def)
  show ?thesis unfolding enumerated_def l g ..
qed

lemma update_sync_state_Inr:
  assumes "update_sync_state k m n = Inr k1" and "sync_state (in_txn k) = Some row"
  shows "sqlite_int m \<and> sqlite_int n"
    and "on_disk k1 = (in_txn k)\<lparr>sync_state := Some (row\<lparr>last_uid := m, total_messages := n\<rparr>)\<rparr>"
  using assms by (auto simp: update_sync_state_def commit_def split: if_splits)

lemma update_sync_state_Inl:
  "schema (in_txn k) \<Longrightarrow> schema (in_txn k') \<Longrightarrow>
   update_sync_state k m n = Inl e \<Longrightarrow> update_sync_state k' m n = Inl e"
  by (auto simp: update_sync_state_def split: if_splits)

lemma update_sync_state_same:
  assumes "sqlite_int m" and "sqlite_int n" and "sync_state d = Some row"
    and "last_uid row = m" and "total_messages row = n" and "schema d"
  shows "update_sync_state (get_connection d) m n = Inr (get_connection d)"
  using assms by (simp add: update_sync_state_def commit_def get_connection_def)

lemma fetch_headers_batch_grown:
  assumes "fetch_headers_batch srv uids batch_size (loop_body L batch_size) s c = (fe, s1, c1)"
    and "grown (fstore s)"
  shows "grown (fstore s1)
       \<and> dom (emails (on_disk (fstore s))) \<subseteq> dom (emails (on_disk (fstore s1)))"
proof (cases "py_range (length uids) batch_size")
  case (Inl e)
  then show ?thesis using assms by (auto simp: fetch_headers_batch_def)
next
  case (Inr starts)
  then have "for_batches srv uids (nat batch_size) starts (loop_body L batch_size) s c
               = (fe, s1, c1)"
    using assms(1) by (simp add: fetch_headers_batch_def)
  from for_batches_grown [OF this assms(2)] show ?thesis .
qed

text \<open>What the statements after the loop leave in the file.\<close>

lemma finish_store:
  assumes "finish srv uids s c = (r1, k1, c1)" and "uids \<noteq> []"
    and "grown (fstore s)" and "same_tables (fstore s) d" and "sync_state d = Some row"
  shows "dom (emails (on_disk (fstore (snd (store_remaining s)))))
           \<subseteq> dom (emails (on_disk k1))"
    and "deleted_uids (on_disk k1) = deleted_uids d"
    and "schema (on_disk k1) = schema d"
    and "\<forall>e. r1 = Inl e \<longrightarrow> sync_state (on_disk k1) = sync_state d"
    and "\<forall>st. r1 = Inr st \<longrightarrow>
           (\<exists>n. sync_state (on_disk k1)
                  = Some (row\<lparr>last_uid := Max (set uids), total_messages := n\<rparr>))"
proof -
  let ?s1 = "snd (store_remaining s)"
  have t1: "same_tables (fstore ?s1) d" using assms(4) by (rule store_remaining_tables)
  have g1: "grown (fstore ?s1)" using store_remaining_grown [OF assms(3)] by simp
  have all: "dom (emails (on_disk (fstore ?s1))) \<subseteq> dom (emails (on_disk k1))
    \<and> deleted_uids (on_disk k1) = deleted_uids d
    \<and> schema (on_disk k1) = schema d
    \<and> (\<forall>e. r1 = Inl e \<longrightarrow> sync_state (on_disk k1) = sync_state d)
    \<and> (\<forall>st. r1 = Inr st \<longrightarrow>
           (\<exists>n. sync_state (on_disk k1)
                  = Some (row\<lparr>last_uid := Max (set uids), total_messages := n\<rparr>)))"
    using assms(1,2)
  proof (cases rule: finish_cases)
    case (remaining_failed e s1)
    then show ?thesis using t1 by (simp add: same_tables_def)
  next
    case (status_failed s1 e)
    then show ?thesis using t1 by (simp add: same_tables_def)
  next
    case (update_failed s1 uidnext e)
    then show ?thesis using t1 by (simp add: same_tables_def)
  next
    case (completed s1 uidnext)
    have s1: "?s1 = s1" using completed(1) by simp
    have row1: "sync_state (in_txn (fstore s1)) = Some row"
      using t1 assms(5) by (simp add: s1 same_tables_def)
    have disk: "on_disk k1 = (in_txn (fstore s1))
          \<lparr>sync_state := Some (row\<lparr>last_uid := Max (set uids), total_messages := uidnext\<rparr>)\<rparr>"
      using update_sync_state_Inr(2) [OF completed(3) row1] .
    have "dom (emails (on_disk (fstore s1))) \<subseteq> dom (emails (in_txn (fstore s1)))"
      using g1 by (simp add: s1 grown_def)
    then show ?thesis
      using completed(4) t1 by (auto simp: s1 disk same_tables_def)
  qed
  show "dom (emails (on_disk (fstore ?s1))) \<subseteq> dom (emails (on_disk k1))" using all by simp
  show "deleted_uids (on_disk k1) = deleted_uids d" using all by simp
  show "schema (on_disk k1) = schema d" using all by simp
  show "\<forall>e. r1 = Inl e \<longrightarrow> sync_state (on_disk k1) = sync_state d" using all by simp
  show "\<forall>st. r1 = Inr st \<longrightarrow>
           (\<exists>n. sync_state (on_disk k1)
                  = Some (row\<lparr>last_uid := Max (set uids), total_messages := n\<rparr>))"
    using all by simp
qed

text \<open>
  The statements after the loop again, on a connection to the file that they left, with
  the same pending records: the same exception, or statistics with nothing stored, and
  the file is unchanged.
\<close>

lemma finish_rerun:
  assumes fin1: "finish srv uids s c = (r1, k1, c1)" and ne: "uids \<noteq> []"
    and gs: "grown (fstore s)" and ts: "same_tables (fstore s) d"
    and row: "sync_state d = Some row" and sch: "schema d"
    and t: "fstore t = get_connection (on_disk k1)" "batch_emails t = batch_emails s"
      "fetched t = fetched s" "new_stored (fstats t) = 0"
  shows "\<exists>r2 k2. finish srv uids t c = (r2, k2, c1) \<and> on_disk k2 = on_disk k1
               \<and> (\<forall>st. r2 = Inr st \<longrightarrow> new_stored st = 0)"
proof -
  let ?d1 = "on_disk k1"
  have cl: "clean (fstore t)" by (simp add: t(1) clean_get_connection)
  have disk: "on_disk (fstore t) = ?d1" by (simp add: t(1) get_connection_def)
  have sub: "dom (emails (on_disk (fstore (snd (store_remaining s)))))
               \<subseteq> dom (emails (on_disk (fstore t)))"
    using finish_store(1) [OF fin1 ne gs ts row] by (simp add: disk)
  have sd1: "schema ?d1" using finish_store(3) [OF fin1 ne gs ts row] sch by simp
  have ss: "schema (in_txn (fstore s))" using ts sch by (simp add: same_tables_def)
  have scht: "schema (in_txn (fstore t))" using sd1 by (simp add: t(1) get_connection_def)
  note again = store_remaining_rerun [OF t(2,3) cl sub ss scht]
  have mx: "py_max uids = Inr (Max (set uids))" using ne by (rule py_max_Max)
  obtain x t' where st: "store_remaining t = (x, t')" by (cases "store_remaining t")
  from fin1 ne show ?thesis
  proof (cases rule: finish_cases)
    case (remaining_failed e s1)
    then have "x = Some e" "on_disk (fstore t') = ?d1"
      using again st disk by simp_all
    then show ?thesis using st remaining_failed by (simp add: finish_def)
  next
    case (status_failed s1 e)
    then have "x = None" "fstore t' = fstore t"
      using again st by simp_all
    then show ?thesis
      using st status_failed mx ne disk by (simp add: finish_def Let_def)
  next
    case (update_failed s1 uidnext e)
    then have x: "x = None" "fstore t' = fstore t"
      using again st by simp_all
    have "schema (in_txn (fstore s1))"
      using store_remaining_tables [OF ts] update_failed(1) sch by (simp add: same_tables_def)
    moreover have "schema (in_txn (fstore t'))" using x(2) scht by simp
    ultimately have "update_sync_state (fstore t') (Max (set uids)) uidnext = Inl e"
      using update_failed(3) by (rule update_sync_state_Inl)
    then show ?thesis
      using st x update_failed mx ne disk by (simp add: finish_def Let_def)
  next
    case (completed s1 uidnext)
    then have x: "x = None" "fstore t' = fstore t"
      "new_stored (fstats t') = new_stored (fstats t)"
      using again st by simp_all
    have row1: "sync_state (in_txn (fstore s1)) = Some row"
      using store_remaining_tables [OF ts] completed(1) row by (simp add: same_tables_def)
    have ok: "sqlite_int (Max (set uids)) \<and> sqlite_int uidnext"
      using update_sync_state_Inr(1) [OF completed(3) row1] .
    have r1: "sync_state ?d1
            = Some (row\<lparr>last_uid := Max (set uids), total_messages := uidnext\<rparr>)"
      using update_sync_state_Inr(2) [OF completed(3) row1] by simp
    have "update_sync_state (get_connection ?d1) (Max (set uids)) uidnext
                 = Inr (get_connection ?d1)"
      using update_sync_state_same [OF _ _ r1, of "Max (set uids)" uidnext] ok sd1 by simp
    then have "update_sync_state (fstore t') (Max (set uids)) uidnext
                 = Inr (get_connection ?d1)"
      by (simp add: x(2) t(1))
    then show ?thesis
      using st x completed(2) mx ne t(4)
      by (simp add: finish_def Let_def get_connection_def)
  qed
qed

text \<open>
  The block of \<open>fetch_all\<close> again, on a connection to the file that the first pass left.
\<close>

lemma fetch_all_block_again:
  assumes run1: "fetch_all_block L srv batch_size incremental (get_connection d) c
                   = (r1, k1, c1)"
    and row: "sync_state d = Some row" and sch: "schema d"
    and run2: "fetch_all_block L srv batch_size incremental (get_connection (on_disk k1)) c
                 = (r2, k2, c2)"
  shows "on_disk k2 = on_disk k1 \<and> (\<forall>st. r2 = Inr st \<longrightarrow> new_stored st = 0)
       \<and> schema (on_disk k1) = schema d \<and> (\<exists>row1. sync_state (on_disk k1) = Some row1)"
proof -
  let ?k = "get_connection d"
  let ?d1 = "on_disk k1"
  let ?k' = "get_connection ?d1"
  let ?E = "enumerated srv incremental d"
  have k: "in_txn ?k = d" "on_disk ?k = d" by (simp_all add: get_connection_def)
  have k': "in_txn ?k' = ?d1" "on_disk ?k' = ?d1" by (simp_all add: get_connection_def)
  have t0: "same_tables ?k d" by (rule same_tables_get_connection)
  have g0: "grown (fstore (floop0 ?k))"
    by (simp add: floop0_def clean_grown clean_get_connection)
  have sch0: "schema (in_txn (fstore (floop0 ?k)))"
    using sch by (simp add: floop0_def get_connection_def)
  have sch1: "schema ?d1 = schema d \<Longrightarrow> schema (in_txn (fstore (floop0 ?k')))"
    using sch by (simp add: floop0_def get_connection_def)
  have cl0: "clean (fstore (floop0 ?k'))"
    by (simp add: floop0_def clean_get_connection)
  have init: "batch_emails (floop0 ?k') = batch_emails (floop0 ?k)"
    "fetched (floop0 ?k') = fetched (floop0 ?k)" "clean (fstore (floop0 ?k'))"
    "on_disk (fstore (floop0 ?k')) = ?d1" "new_stored (fstats (floop0 ?k')) = 0"
    "fstore (floop0 ?k') = ?k'"
    using cl0 by (simp_all add: floop0_def get_connection_def stats0_def)
  from run1 show ?thesis
  proof (cases rule: fetch_all_block_cases)
    case (list_failed e)
    then have "?k' = ?k" by (simp add: get_connection_def)
    then show ?thesis using run1 run2 list_failed row by (auto simp: k)
  next
    case (none_listed listed)
    then have "?k' = ?k" by (simp add: get_connection_def)
    then show ?thesis using run1 run2 none_listed row by (auto simp: k stats0_def)
  next
    case (loop_failed listed c3 e s)
    have ts: "same_tables (fstore s) d"
      using fetch_loop_tables [OF loop_failed(3) t0] .
    have tabs: "sync_state ?d1 = sync_state d" "deleted_uids ?d1 = deleted_uids d"
      "schema ?d1 = schema d"
      using ts loop_failed(5) by (simp_all add: same_tables_def)
    have l: "list_uids srv incremental ?d1 c = (Inr listed, c3)"
      using loop_failed(1) list_uids_same_cursor [of ?d1 d srv incremental c] tabs(1)
      by (simp add: get_sync_state_def k)
    have en: "enumerated srv incremental ?d1 = ?E"
      using tabs(1,2) by (rule enumerated_same_tables)
    have sub: "dom (emails (on_disk (fstore s)))
                 \<subseteq> dom (emails (on_disk (fstore (floop0 ?k'))))"
      by (simp add: loop_failed(5) floop0_def get_connection_def)
    obtain t1 where again:
      "fetch_headers_batch srv ?E batch_size (loop_body L batch_size) (floop0 ?k') c3
         = (Some e, t1, c1)"
      "on_disk (fstore t1) = ?d1"
      using fetch_headers_batch_rerun [OF loop_failed(3) [unfolded k] init(1,2,3) g0 sub sch0
          sch1 [OF tabs(3)]]
      by (auto simp: init(4))
    have "fetch_all_block L srv batch_size incremental ?k' c = (Inl e, fstore t1, c1)"
      using fetch_all_block_eq [of srv incremental ?k' c listed c3 batch_size L "Some e" t1 c1]
        l en again(1) loop_failed(2)
      by (simp add: k k')
    then show ?thesis using run2 again(2) tabs row by auto
  next
    case (finished listed c3 s c4)
    have ne: "?E \<noteq> []" using finished(2) by (simp add: k)
    have fin1: "finish srv ?E s c4 = (r1, k1, c1)" using finished(4) by (simp add: k)
    have ts: "same_tables (fstore s) d"
      using fetch_loop_tables [OF finished(3) t0] .
    have gs: "grown (fstore s)"
      using fetch_headers_batch_grown [OF finished(3) g0] by simp
    note store = finish_store [OF fin1 ne gs ts row]
    have rowx: "\<exists>row1. sync_state ?d1 = Some row1"
      using store(4,5) row by (cases r1) auto
    have sub: "dom (emails (on_disk (fstore s)))
                 \<subseteq> dom (emails (on_disk (fstore (floop0 ?k'))))"
      unfolding init(4) using store_remaining_grown [OF gs] store(1) by blast
    obtain t1 where again:
      "fetch_headers_batch srv ?E batch_size (loop_body L batch_size) (floop0 ?k') c3
         = (None, t1, c4)"
      "fstore t1 = ?k'" "batch_emails t1 = batch_emails s" "fetched t1 = fetched s"
      "new_stored (fstats t1) = 0"
      using fetch_headers_batch_rerun [OF finished(3) [unfolded k] init(1,2,3) g0 sub sch0
          sch1 [OF store(3)]]
      by (auto simp: init(5,6))
    obtain r2' k2' where fin2: "finish srv ?E t1 c4 = (r2', k2', c1)"
      "on_disk k2' = ?d1" "\<forall>st. r2' = Inr st \<longrightarrow> new_stored st = 0"
      using finish_rerun [OF fin1 ne gs ts row sch again(2,3,4,5)] by blast
    have second: "on_disk k2 = ?d1 \<and> (\<forall>st. r2 = Inr st \<longrightarrow> new_stored st = 0)"
      if l1: "list_uids srv incremental ?d1 c = (Inr listed1, c3)"
        and en: "enumerated srv incremental ?d1 = ?E" for listed1
    proof -
      have "fetch_all_block L srv batch_size incremental ?k' c = finish srv ?E t1 c4"
        using fetch_all_block_eq [of srv incremental ?k' c listed1 c3 batch_size L None t1 c4]
          l1 en again(1) ne
        by (simp add: k')
      then show ?thesis using run2 fin2 by auto
    qed
    have "on_disk k2 = ?d1 \<and> (\<forall>st. r2 = Inr st \<longrightarrow> new_stored st = 0)"
    proof (cases r1)
      case (Inl e)
      then have tabs: "sync_state ?d1 = sync_state d" "deleted_uids ?d1 = deleted_uids d"
        using store(2,4) by simp_all
      have l: "list_uids srv incremental ?d1 c = (Inr listed, c3)"
        using finished(1) list_uids_same_cursor [of ?d1 d srv incremental c] tabs(1)
        by (simp add: get_sync_state_def k)
      have en: "enumerated srv incremental ?d1 = ?E"
        using tabs by (rule enumerated_same_tables)
      from second [OF l en] show ?thesis .
    next
      case (Inr st)
      let ?M = "Max (set ?E)"
      obtain n where row1: "sync_state ?d1 = Some (row\<lparr>last_uid := ?M, total_messages := n\<rparr>)"
        using store(5) Inr by blast
      have del1: "deleted_uids ?d1 = deleted_uids d" using store(2) .
      have cur1: "last_uid (get_sync_state ?d1) = ?M"
        using row1 by (simp add: get_sync_state_def)
      obtain listing where srch: "search_all srv c = (Inr listing, c3)"
        using finished(1) by (rule list_uids_Inr)
      have l1: "list_uids srv incremental ?d1 c
                 = (Inr (if incremental \<and> last_uid (get_sync_state ?d1) > 0
                         then filter (\<lambda>u. u > last_uid (get_sync_state ?d1)) listing
                         else listing), c3)"
        using srch by (simp add: list_uids_search)
      have e0: "?E = filter (\<lambda>u. u \<notin> deleted_uids d)
                      (if incremental \<and> last_uid (get_sync_state d) > 0
                       then filter (\<lambda>u. u > last_uid (get_sync_state d)) listing
                       else listing)"
        using srch by (rule enumerated_search)
      have e1: "enumerated srv incremental ?d1
                  = filter (\<lambda>u. u \<notin> deleted_uids d)
                      (if incremental \<and> ?M > 0 then filter (\<lambda>u. u > ?M) listing
                       else listing)"
        using enumerated_search [OF srch, of incremental ?d1] unfolding del1 cur1 .
      have alt: "enumerated srv incremental ?d1 = [] \<or> enumerated srv incremental ?d1 = ?E"
        unfolding e1 using relist [OF e0 ne] .
      show ?thesis
      proof (cases "enumerated srv incremental ?d1 = []")
        case True
        have "fetch_all_block L srv batch_size incremental ?k' c = (Inr stats0, ?k', c3)"
          using fetch_all_block_empty [of srv incremental ?k' c _ c3 L batch_size] l1 True
          by (simp add: k')
        then show ?thesis using run2 by (auto simp: stats0_def k')
      next
        case False
        then have en: "enumerated srv incremental ?d1 = ?E" using alt by simp
        from second [OF l1 en] show ?thesis .
      qed
    qed
    then show ?thesis using store(3) rowx by simp
  qed
qed

text \<open>
  C7. Run \<open>fetch_all\<close> and then run it again with the same arguments against the same
  remote end (the same replies to the same requests), incremental or full, whatever
  happened in the first run. The second run leaves the store exactly as the first run left
  it: no row is added to \<open>emails\<close>, and \<open>last_uid\<close> (indeed the whole sync state) keeps
  its value. When the second run returns statistics, its \<open>new_stored\<close> is 0.
\<close>

theorem second_sync_changes_nothing:
  assumes "fetch_all L srv credentials batch_size incremental d0 = (r1, d1, log1)"
    and "fetch_all L srv credentials batch_size incremental d1 = (r2, d2, log2)"
  shows "d2 = d1
       \<and> emails d2 = emails d1
       \<and> last_uid (get_sync_state d2) = last_uid (get_sync_state d1)
       \<and> (\<forall>st. r2 = Inr st \<longrightarrow> new_stored st = 0)"
proof -
  obtain row where row: "sync_state (init_db d0) = Some row"
    using init_db_row by blast
  have sch: "schema (init_db d0)" by (rule init_db_schema)
  have "d2 = d1 \<and> (\<forall>st. r2 = Inr st \<longrightarrow> new_stored st = 0)"
    using assms(1)
  proof (cases rule: fetch_all_cases)
    case no_credentials
    then have "init_db d1 = d1" using row sch init_db_idem by simp
    then show ?thesis using assms(2) no_credentials by (auto simp: fetch_all_def Let_def)
  next
    case (no_connection e c)
    then have "init_db d1 = d1" using row sch init_db_idem by simp
    then show ?thesis using assms(2) no_connection by (auto simp: fetch_all_def Let_def)
  next
    case (block c k1 c1)
    obtain r' k' c' where run2:
      "fetch_all_block L srv batch_size incremental (get_connection (on_disk k1)) c
         = (r', k', c')"
      by (metis prod.collapse)
    note again = fetch_all_block_again [OF block(3) row sch run2]
    have "schema d1" using again sch block(4) by simp
    moreover obtain row1 where "sync_state d1 = Some row1" using again block(4) by auto
    ultimately have same: "init_db d1 = d1" by (rule init_db_idem)
    have "r2 = r' \<and> d2 = on_disk k'"
      using assms(2) block(1,2,4) same run2 by (simp add: fetch_all_def Let_def)
    then show ?thesis using again block(4) by simp
  qed
  then show ?thesis by simp
qed
theorem second_sync_changes_nothing_witness:
  "fst (fetch_all plain_lib three_mail_server True 2 False empty_db)
     = Inr \<lparr>total_fetched = 3, new_stored = 3, already_existed = 0, errors = 0\<rparr>
   \<and> last_uid (get_sync_state (fst (snd (fetch_all plain_lib three_mail_server True 2 False
        empty_db)))) = 30
   \<and> fst (snd (fetch_all plain_lib three_mail_server True 2 False
        (fst (snd (fetch_all plain_lib three_mail_server True 2 False empty_db)))))
       = fst (snd (fetch_all plain_lib three_mail_server True 2 False empty_db))
   \<and> last_uid (get_sync_state (fst (snd (fetch_all plain_lib three_mail_server True 2 False
        (fst (snd (fetch_all plain_lib three_mail_server True 2 False empty_db))))))) = 30"
proof -
  let ?run1 = "fetch_all plain_lib three_mail_server True 2 False empty_db"
  let ?d1 = "fst (snd ?run1)"
  let ?run2 = "fetch_all plain_lib three_mail_server True 2 False ?d1"
  have first: "fst ?run1
     = Inr \<lparr>total_fetched = 3, new_stored = 3, already_existed = 0, errors = 0\<rparr>
     \<and> last_uid (get_sync_state ?d1) = 30"
    by (simp add: fetch_all_def fetch_all_block_def Let_def init_db_def empty_db_def
      connect_def select_all_mail_def send_def new_client_def disconnect_def
      three_mail_server_def quiet_server_def plain_lib_def
      list_uids_def search_all_def search_since_uid_def get_sync_state_def
      get_deleted_uids_def fetch_headers_batch_def py_range_def range_from.simps
      py_slice_def fetch_headers_def parse_fetch_response_def floop0_def stats0_def
      loop_body_def parse_headers_def and_then_def decode_header_value_def decode_part_def
      msg_get_def extract_email_address_def parse_date_def falsy_def strip_message_id_def
      finish_def get_connection_def commit_def bind_email_def sqlite_int_def
      store_remaining_def store_batch_def insert_emails_batch_def insert_email_def
      py_max_def get_uidnext_def update_sync_state_def)
  have e1: "?run1 = (fst ?run1, ?d1, snd (snd ?run1))" by simp
  have e2: "?run2 = (fst ?run2, fst (snd ?run2), snd (snd ?run2))" by simp
  have "fst (snd ?run2) = ?d1
      \<and> last_uid (get_sync_state (fst (snd ?run2))) = last_uid (get_sync_state ?d1)"
    using second_sync_changes_nothing [OF e1 e2] by blast
  then show ?thesis using first by simp
qed


end
